theory Spec2Isabelle
  imports
    Main
    "HOL-Library.Sublist"
    "HOL-Library.AList"
    "HOL-Library.Char_ord"
    "HOL-Library.List_Lexorder"
    "HOL-Library.Product_Lexorder"
begin

section \<open>Python values, errors and strings\<close>

text \<open>
  The exceptions the module can raise, as values. \<open>ValueError\<close> carries its message;
  \<open>AttributeError\<close> is what a missing child or attribute raises; \<open>IndexError\<close> is what
  indexing a list past its end raises; \<open>KeyError\<close> is a missing dictionary key;
  \<open>TypeError\<close> is raised by the tree library when an element is added beside the root.
  \<open>Unmodelled\<close> marks a Python attribute of the wrapper object whose value is not an
  element of the tree (a method, the namespace string, ...).
\<close>

datatype error =
    ValueError string
  | AttributeError string
  | IndexError
  | KeyError string
  | TypeError string
  | Unmodelled string

text \<open>Sequencing of fallible steps: the first exception ends the computation.\<close>

definition bindE :: "error + 'a \<Rightarrow> ('a \<Rightarrow> error + 'b) \<Rightarrow> error + 'b" where
  "bindE m f = (case m of Inl e \<Rightarrow> Inl e | Inr x \<Rightarrow> f x)"

text \<open>\<open>s.split(sep, 1)[1]\<close>: the text after the first separator; with no separator in
  \<open>s\<close> the list has one element and the index raises.\<close>

definition split1_second :: "char \<Rightarrow> string \<Rightarrow> error + string" where
  "split1_second sep s =
     (if sep \<in> set s then Inr (tl (dropWhile (\<lambda>c. c \<noteq> sep) s)) else Inl IndexError)"

text \<open>\<open>s.split(sep)\<close>: every piece between separators (at least one piece).\<close>

fun split_on :: "char \<Rightarrow> string \<Rightarrow> string list" where
  "split_on sep [] = [[]]"
| "split_on sep (c # cs) =
     (if c = sep then [] # split_on sep cs
      else (case split_on sep cs of
              [] \<Rightarrow> [[c]]
            | w # ws \<Rightarrow> (c # w) # ws))"

text \<open>\<open>sep.join(xs)\<close>.\<close>

fun join :: "string \<Rightarrow> string list \<Rightarrow> string" where
  "join sep [] = []"
| "join sep [x] = x"
| "join sep (x # y # ys) = x @ sep @ join sep (y # ys)"

text \<open>Decimal digits of a natural number, and \<open>%0wd\<close> padding.\<close>

definition digit :: "nat \<Rightarrow> char" where
  "digit n = ''0123456789'' ! (n mod 10)"

function dec :: "nat \<Rightarrow> string" where
  "dec n = (if n < 10 then [digit n] else dec (n div 10) @ [digit (n mod 10)])"
  by pat_completeness auto
termination
  by (relation "measure id") auto

declare dec.simps [simp del]

definition zero_pad :: "nat \<Rightarrow> string \<Rightarrow> string" where
  "zero_pad w s = replicate (w - length s) (CHR ''0'') @ s"

section \<open>Dates and \<open>datestring\<close>\<close>

text \<open>A \<open>datetime.date\<close>: year, month and day. The argument of \<open>datestring\<close> is
  \<open>None\<close>, a string or a date.\<close>

record pydate =
  year :: nat
  month :: nat
  day :: nat

datatype datearg = DNone | DStr string | DDate pydate

fun datestring :: "datearg \<Rightarrow> string" where
  "datestring DNone = ''''"
| "datestring (DStr s) = s"
| "datestring (DDate d) =
     zero_pad 4 (dec (year d)) @ ''-'' @ zero_pad 2 (dec (month d)) @ ''-'' @ zero_pad 2 (dec (day d))"

section \<open>The element tree\<close>

text \<open>
  An element of the parsed tree: its tag in the tree library's notation (\<open>{namespace}local\<close>,
  or just \<open>local\<close> for an element in no namespace), the namespace bindings it carries
  (prefix, \<open>None\<close> for the default namespace, to namespace URI), its attributes in order, and
  its child elements in document order. Text content, comments and processing instructions
  are not modelled: no operation of the module reads them.
\<close>

datatype element =
  Element (tag: string) (nsmap: "(string option \<times> string) list")
          (attrib: "(string \<times> string) list") (children: "element list")

text \<open>A node of a tree is referred to by the child indexes leading to it from the root of
  the tree.\<close>

type_synonym path = "nat list"

fun get_at :: "element \<Rightarrow> path \<Rightarrow> element option" where
  "get_at e [] = Some e"
| "get_at e (i # p) = (if i < length (children e) then get_at (children e ! i) p else None)"

fun upd_at :: "path \<Rightarrow> (element \<Rightarrow> element) \<Rightarrow> element \<Rightarrow> element" where
  "upd_at [] f e = f e"
| "upd_at (i # p) f e =
     (if i < length (children e)
      then Element (tag e) (nsmap e) (attrib e) ((children e)[i := upd_at p f (children e ! i)])
      else e)"

text \<open>\<open>el.get(k)\<close>, \<open>el.get(k, default)\<close> and \<open>el.set(k, v)\<close> on one element.\<close>

definition attr_get :: "element \<Rightarrow> string \<Rightarrow> string option" where
  "attr_get e k = map_of (attrib e) k"

definition attr_get_default :: "element \<Rightarrow> string \<Rightarrow> string \<Rightarrow> string" where
  "attr_get_default e k d = (case map_of (attrib e) k of Some v \<Rightarrow> v | None \<Rightarrow> d)"

definition attr_set :: "string \<Rightarrow> string \<Rightarrow> element \<Rightarrow> element" where
  "attr_set k v e = Element (tag e) (nsmap e) (AList.update k v (attrib e)) (children e)"

definition set_children :: "element list \<Rightarrow> element \<Rightarrow> element" where
  "set_children cs e = Element (tag e) (nsmap e) (attrib e) cs"

text \<open>The namespace of a tag, and the tag the object view of the tree looks for when an
  attribute \<open>parent.name\<close> is read: a name without a namespace of its own is looked up in the
  namespace of the parent.\<close>

definition namespace_of :: "string \<Rightarrow> string option" where
  "namespace_of t =
     (case t of
        c # cs \<Rightarrow> (if c = CHR ''{'' \<and> CHR ''}'' \<in> set cs
                   then Some (takeWhile (\<lambda>x. x \<noteq> CHR ''}'') cs) else None)
      | [] \<Rightarrow> None)"

definition child_tag :: "string \<Rightarrow> string \<Rightarrow> string" where
  "child_tag ptag name =
     (case name of
        CHR ''{'' # _ \<Rightarrow> name
      | _ \<Rightarrow> (case namespace_of ptag of
                Some ns \<Rightarrow> ''{'' @ ns @ ''}'' @ name
              | None \<Rightarrow> name))"

text \<open>Index of the first element of a list satisfying a test.\<close>

fun first_index :: "('a \<Rightarrow> bool) \<Rightarrow> 'a list \<Rightarrow> nat option" where
  "first_index P [] = None"
| "first_index P (x # xs) = (if P x then Some 0 else map_option Suc (first_index P xs))"

text \<open>\<open>getattr(node, name)\<close> on a node of the tree: the first child with the looked-up tag,
  or \<open>AttributeError\<close>.\<close>

definition objectify_getattr :: "element \<Rightarrow> path \<Rightarrow> string \<Rightarrow> error + path" where
  "objectify_getattr t p name =
     (case get_at t p of
        None \<Rightarrow> Inl (AttributeError name)
      | Some e \<Rightarrow>
          (case first_index (\<lambda>c. tag c = child_tag (tag e) name) (children e) of
             None \<Rightarrow> Inl (AttributeError (''no such child: '' @ child_tag (tag e) name))
           | Some i \<Rightarrow> Inr (p @ [i])))"

text \<open>A chain of attribute reads \<open>node.a.b.c\<close>; the first missing child raises.\<close>

fun getattr_chain :: "element \<Rightarrow> path \<Rightarrow> string list \<Rightarrow> error + path" where
  "getattr_chain t p [] = Inr p"
| "getattr_chain t p (n # ns) = bindE (objectify_getattr t p n) (\<lambda>q. getattr_chain t q ns)"

text \<open>\<open>after.addnext(node)\<close>: the new node becomes the next sibling of \<open>after\<close>. The result
  is the tree and the place of the new node. The root has no siblings.\<close>

definition addnext :: "path \<Rightarrow> element \<Rightarrow> element \<Rightarrow> error + (path \<times> element)" where
  "addnext after new t =
     (if after = [] then Inl (TypeError ''Only processing instructions and comments can be siblings of the root element'')
      else Inr (butlast after @ [Suc (last after)],
                upd_at (butlast after)
                  (\<lambda>e. set_children (take (Suc (last after)) (children e) @ [new] @
                                      drop (Suc (last after)) (children e)) e) t))"

text \<open>\<open>parent.remove(child)\<close> and \<open>parent.insert(0, node)\<close>.\<close>

definition remove_child :: "path \<Rightarrow> nat \<Rightarrow> element \<Rightarrow> element" where
  "remove_child parent i t =
     upd_at parent (\<lambda>e. set_children (take i (children e) @ drop (Suc i) (children e)) e) t"

definition insert_first :: "path \<Rightarrow> element \<Rightarrow> element \<Rightarrow> element" where
  "insert_first parent new t = upd_at parent (\<lambda>e. set_children (new # children e) e) t"

section \<open>Namespaces\<close>

definition AKN_NAMESPACES :: "(string \<times> string) list" where
  "AKN_NAMESPACES =
     [(''2.0'', ''http://www.akomantoso.org/2.0''),
      (''3.0'', ''http://docs.oasis-open.org/legaldocml/ns/akn/3.0'')]"

definition DEFAULT_VERSION :: string where
  "DEFAULT_VERSION = ''3.0''"

text \<open>\<open>get_namespace\<close>: the known namespaces by descending version label, the first one that
  is among the values of the root's namespace map.\<close>

definition akn_namespaces :: "string list" where
  "akn_namespaces = map snd (rev (sort AKN_NAMESPACES))"

definition get_namespace :: "element \<Rightarrow> error + string" where
  "get_namespace root =
     (let namespaces = map snd (nsmap root) in
      case List.find (\<lambda>ns. ns \<in> set namespaces) akn_namespaces of
        Some ns \<Rightarrow> Inr ns
      | None \<Rightarrow> Inl (ValueError
          (''Expected to find one of the following Akoma Ntoso XML namespaces: '' @
           join '', '' akn_namespaces @
           ''. Only these namespaces were found: '' @ join '', '' namespaces)))"

section \<open>Parsing and validation\<close>

text \<open>
  The markup handed to the parser is represented by the tree it describes, with element names
  as they are written: an unprefixed name is a plain name, a prefixed name is given with the
  namespace its prefix is bound to. \<open>fromstring\<close> is the parser's namespace resolution: an
  unprefixed element is in the default namespace in scope, if there is one.
\<close>

fun fromstring_scope :: "string option \<Rightarrow> element \<Rightarrow> element" where
  "fromstring_scope dflt (Element t ns as cs) =
     (let d = (case map_of ns None of Some u \<Rightarrow> Some u | None \<Rightarrow> dflt);
          t' = (case t of
                  CHR ''{'' # _ \<Rightarrow> t
                | _ \<Rightarrow> (case d of Some u \<Rightarrow> ''{'' @ u @ ''}'' @ t | None \<Rightarrow> t))
      in Element t' ns as (map (fromstring_scope d) cs))"

definition fromstring :: "element \<Rightarrow> element" where
  "fromstring xml = fromstring_scope None xml"

text \<open>\<open>AkomaNtosoDocument.parse\<close>.\<close>

definition AkomaNtosoDocument_parse :: "element \<Rightarrow> error + element" where
  "AkomaNtosoDocument_parse xml =
     (let root = fromstring xml in
      bindE (split1_second (CHR ''}'') (tag root)) (\<lambda>name.
        if name \<noteq> ''akomaNtoso''
        then Inl (ValueError (''XML root element must be akomaNtoso, but got '' @ name @ '' instead''))
        else Inr root))"

text \<open>\<open>StructuredDocument.parse\<close>, for a class whose document type is \<open>dt\<close>.\<close>

definition StructuredDocument_parse :: "string \<Rightarrow> element \<Rightarrow> error + element" where
  "StructuredDocument_parse dt xml =
     bindE (AkomaNtosoDocument_parse xml) (\<lambda>root.
       if length (children root) < 1
       then Inl (ValueError ''XML root element must have at least one child'')
       else bindE (split1_second (CHR ''}'') (tag (children root ! 0))) (\<lambda>name.
         if name \<noteq> dt
         then Inl (ValueError (''Expected '' @ dt @ '' as first child of root element, but got '' @
                               name @ '' instead''))
         else Inr root))"

section \<open>The document wrapper\<close>

text \<open>
  The state of a wrapper object: the tree it owns, the namespace resolved at construction, the
  namespace map of the element maker built at construction (the root's namespace map at that
  time), and the two constants the concrete class declares. Every method that mutates the tree
  in place takes the wrapper and returns the wrapper with the new tree.
\<close>

record document =
  root :: element
  namespace :: string
  maker_nsmap :: "(string option \<times> string) list"
  document_type :: string
  main_content_tag :: string

definition source :: "string list" where
  "source = [''cobalt'', ''cobalt'', ''https://github.com/laws-africa/cobalt'']"

text \<open>A Python object a dotted-path lookup can stand on: the wrapper itself, a node of its
  tree, a string, or some other object that is not an element (a mapping, a list, a bound
  method, ...), recorded by the name of the attribute that gave it.\<close>

datatype pynode = Self | Node path | PyStr string | Other string

definition node_path :: "pynode \<Rightarrow> error + path" where
  "node_path n = (case n of Node p \<Rightarrow> Inr p | _ \<Rightarrow> Inl (AttributeError ''not an element''))"

text \<open>The properties \<open>main\<close>, \<open>main_content\<close> and \<open>meta\<close>.\<close>

definition main :: "document \<Rightarrow> error + path" where
  "main doc = objectify_getattr (root doc) [] (document_type doc)"

definition main_content :: "document \<Rightarrow> error + path" where
  "main_content doc = bindE (main doc) (\<lambda>m. objectify_getattr (root doc) m (main_content_tag doc))"

definition meta :: "document \<Rightarrow> error + path" where
  "meta doc = bindE (main doc) (\<lambda>m. objectify_getattr (root doc) m ''meta'')"

text \<open>
  \<open>getattr(node, name)\<close> on a node of the tree, for any name. An element object has names of
  its own, which are found before any child lookup: the attributes and methods of the element
  class of the parser library, among them \<open>tag\<close>, \<open>nsmap\<close>, \<open>find\<close>, \<open>get\<close> and
  \<open>set\<close>, which this module itself reads. \<open>tag\<close> gives the tag, a string; the others give
  objects that are not elements. Every other name is a child lookup, \<open>objectify_getattr\<close>.
  Names that begin with an underscore, and the names that only the element classes for leaves
  have, are outside the model.
\<close>

definition element_attributes :: "string list" where
  "element_attributes =
     [''tag'', ''text'', ''tail'', ''attrib'', ''nsmap'', ''prefix'', ''base'', ''sourceline'',
      ''addattr'', ''addnext'', ''addprevious'', ''append'', ''clear'', ''countchildren'',
      ''cssselect'', ''descendantpaths'', ''extend'', ''find'', ''findall'', ''findtext'', ''get'',
      ''getchildren'', ''getiterator'', ''getnext'', ''getparent'', ''getprevious'',
      ''getroottree'', ''index'', ''insert'', ''items'', ''iter'', ''iterancestors'',
      ''iterchildren'', ''iterdescendants'', ''iterfind'', ''itersiblings'', ''itertext'', ''keys'',
      ''makeelement'', ''remove'', ''replace'', ''set'', ''values'', ''xpath'']"

definition child_name :: "string \<Rightarrow> bool" where
  "child_name n \<longleftrightarrow>
     n \<notin> set element_attributes \<and> n \<notin> set [''pyval'', ''strlen''] \<and>
     (case n of CHR ''_'' # _ \<Rightarrow> False | _ \<Rightarrow> True)"

definition element_getattr :: "element \<Rightarrow> path \<Rightarrow> string \<Rightarrow> error + pynode" where
  "element_getattr t p name =
     (if name = ''tag''
      then (case get_at t p of
              None \<Rightarrow> Inl (AttributeError name)
            | Some e \<Rightarrow> Inr (PyStr (tag e)))
      else if name \<in> set element_attributes then Inr (Other name)
      else if child_name name then bindE (objectify_getattr t p name) (\<lambda>q. Inr (Node q))
      else Inl (Unmodelled name))"

text \<open>
  \<open>getattr(self, name)\<close> on the wrapper. The properties \<open>main\<close>, \<open>main_content\<close> and
  \<open>meta\<close> and the two aliases that the constructor binds to \<open>main\<close> and \<open>main_content\<close>
  give elements, or raise when the child lookup in them fails; \<open>root\<close> gives the root. The
  string-valued attributes give strings, the other attributes and the methods give objects that
  are not elements. The six computed properties run their getters, which are modelled further
  down; what a dotted path through them gives is outside this model, as are names that begin
  with an underscore. Any other name is not an attribute of the wrapper: \<open>AttributeError\<close>.
\<close>

definition wrapper_properties :: "string list" where
  "wrapper_properties =
     [''title'', ''work_date'', ''expression_date'', ''manifestation_date'', ''language'',
      ''frbr_uri'']"

definition wrapper_attributes :: "string list" where
  "wrapper_attributes =
     [''maker'', ''source'', ''structure_type'', ''_parser'', ''_ensure_lifecycle'',
      ''_ensure_reference'', ''parse'', ''to_xml'', ''get_namespace'', ''ensure_element'',
      ''get_element'', ''make_element'', ''for_document_type'', ''empty_document'',
      ''empty_document_content'', ''empty_document_attrs'', ''expression_frbr_uri'',
      ''components'']"

definition wrapper_getattr :: "document \<Rightarrow> string \<Rightarrow> error + pynode" where
  "wrapper_getattr doc name =
     (if name = ''main'' then bindE (main doc) (\<lambda>p. Inr (Node p))
      else if name = ''main_content'' then bindE (main_content doc) (\<lambda>p. Inr (Node p))
      else if name = ''meta'' then bindE (meta doc) (\<lambda>p. Inr (Node p))
      else if name \<in> set wrapper_properties then Inl (Unmodelled name)
      else if name = document_type doc then bindE (main doc) (\<lambda>p. Inr (Node p))
      else if name = main_content_tag doc then bindE (main_content doc) (\<lambda>p. Inr (Node p))
      else if name = ''root'' then Inr (Node [])
      else if name = ''namespace'' then Inr (PyStr (namespace doc))
      else if name = ''document_type'' then Inr (PyStr (document_type doc))
      else if name = ''main_content_tag'' then Inr (PyStr (main_content_tag doc))
      else if name \<in> set wrapper_attributes then Inr (Other name)
      else (case name of
              CHR ''_'' # _ \<Rightarrow> Inl (Unmodelled name)
            | _ \<Rightarrow> Inl (AttributeError name)))"

text \<open>\<open>getattr(node, name)\<close> as the loop of \<open>get_element\<close> calls it. What the attributes of
  a string or of another object that is not an element are is outside the model.\<close>

definition getattr_node :: "document \<Rightarrow> pynode \<Rightarrow> string \<Rightarrow> error + pynode" where
  "getattr_node doc node name =
     (case node of
        Self \<Rightarrow> wrapper_getattr doc name
      | Node p \<Rightarrow> element_getattr (root doc) p name
      | _ \<Rightarrow> Inl (Unmodelled name))"

text \<open>\<open>get_element\<close>: the loop over the parts of the dotted path; an \<open>AttributeError\<close> ends
  it with \<open>None\<close>, any other exception propagates.\<close>

fun get_element_loop :: "document \<Rightarrow> pynode \<Rightarrow> string list \<Rightarrow> error + pynode option" where
  "get_element_loop doc node [] = Inr (Some node)"
| "get_element_loop doc node (p # ps) =
     (case getattr_node doc node p of
        Inl (AttributeError m) \<Rightarrow> Inr None
      | Inl e \<Rightarrow> Inl e
      | Inr node' \<Rightarrow> get_element_loop doc node' ps)"

definition get_element :: "document \<Rightarrow> string \<Rightarrow> path option \<Rightarrow> error + pynode option" where
  "get_element doc name rt =
     (let parts = split_on (CHR ''.'') name;
          node = (case rt of Some p \<Rightarrow> Node p | None \<Rightarrow> Self)
      in get_element_loop doc node parts)"

text \<open>\<open>make_element\<close>: a new empty element in the wrapper's namespace.\<close>

definition make_element :: "document \<Rightarrow> string \<Rightarrow> element" where
  "make_element doc elem =
     Element (case elem of
                CHR ''{'' # _ \<Rightarrow> elem
              | _ \<Rightarrow> ''{'' @ namespace doc @ ''}'' @ elem)
             (maker_nsmap doc) [] []"

text \<open>\<open>ensure_element\<close>: the element if it exists, else a new one named by the last part of
  the path, placed after \<open>after\<close>.\<close>

definition ensure_element ::
  "document \<Rightarrow> string \<Rightarrow> path \<Rightarrow> path option \<Rightarrow> error + (pynode \<times> document)" where
  "ensure_element doc name after at =
     bindE (get_element doc name at) (\<lambda>node.
       case node of
         Some n \<Rightarrow> Inr (n, doc)
       | None \<Rightarrow>
           bindE (addnext after (make_element doc (last (split_on (CHR ''.'') name))) (root doc))
             (\<lambda>(q, t). Inr (Node q, doc\<lparr>root := t\<rparr>)))"

text \<open>\<open>node.set(k, v)\<close> and \<open>node.get(k)\<close> for a node of the wrapper's tree.\<close>

definition set_at :: "path \<Rightarrow> string \<Rightarrow> string \<Rightarrow> document \<Rightarrow> document" where
  "set_at p k v doc = doc\<lparr>root := upd_at p (attr_set k v) (root doc)\<rparr>"

definition attr_at :: "element \<Rightarrow> path \<Rightarrow> string \<Rightarrow> string option" where
  "attr_at t p k = (case get_at t p of None \<Rightarrow> None | Some e \<Rightarrow> attr_get e k)"

text \<open>\<open>self.meta.a.b...\<close>: a chain of child lookups below the meta element.\<close>

definition meta_chain :: "document \<Rightarrow> string list \<Rightarrow> error + path" where
  "meta_chain doc names = bindE (meta doc) (\<lambda>m. getattr_chain (root doc) m names)"

section \<open>Collaborators outside this module\<close>

text \<open>
  Modelled from the spec: the identifying-URI value type (module \<open>cobalt.uri\<close>, imported by
  this module). Its coordinate fields are the ones the constructor call in \<open>empty_document\<close>
  and the setter of \<open>frbr_uri\<close> name; the field called \<open>prefix\<close> in the source is
  \<open>uri_prefix\<close> here.
\<close>

record frbr_uri =
  uri_prefix :: string
  country :: string
  locality :: "string option"
  doctype :: string
  subtype :: "string option"
  actor :: "string option"
  date :: string
  number :: string
  work_component :: "string option"
  language :: string
  expression_date :: "string option"

text \<open>
  The operations of the collaborators are parameters of the model: parsing an identifying URI
  from a string (or from \<open>None\<close>), its derived textual forms (each with the flag that keeps or
  drops the work component), its \<open>place\<close>, the empty value, the ISO-8601 date parser, and the
  current date.
\<close>

record collaborators =
  FrbrUri_parse :: "string option \<Rightarrow> error + frbr_uri"
  FrbrUri_uri :: "frbr_uri \<Rightarrow> string"
  FrbrUri_work_uri :: "frbr_uri \<Rightarrow> bool \<Rightarrow> string"
  FrbrUri_expression_uri :: "frbr_uri \<Rightarrow> bool \<Rightarrow> string"
  FrbrUri_manifestation_uri :: "frbr_uri \<Rightarrow> bool \<Rightarrow> string"
  FrbrUri_place :: "frbr_uri \<Rightarrow> string"
  FrbrUri_empty :: frbr_uri
  parse_date :: "string option \<Rightarrow> error + pydate"
  date_today :: pydate

section \<open>Empty documents and construction\<close>

text \<open>\<open>str.lower\<close> on ASCII letters.\<close>

definition lower :: "string \<Rightarrow> string" where
  "lower s = map (\<lambda>c. if CHR ''A'' \<le> c \<and> c \<le> CHR ''Z'' then char_of (of_char c + (32::nat)) else c) s"

text \<open>\<open>empty_document\<close> for a class with document type \<open>dt\<close> and main content tag \<open>ct\<close>.
  The builder \<open>E\<close> makes elements with plain names that carry the default namespace of the
  version; the result stands for the serialised text.\<close>

definition empty_document :: "collaborators \<Rightarrow> string \<Rightarrow> string \<Rightarrow> string \<Rightarrow> error + element" where
  "empty_document api dt ct version =
     (let today = datestring (DDate (date_today api));
          frbr_uri = \<lparr>uri_prefix = (if version = ''2.0'' then [] else ''akn''),
                      country = ''za'', locality = None, doctype = dt, subtype = None,
                      actor = None, date = today, number = ''1'', work_component = Some ''main'',
                      language = ''eng'', expression_date = None\<rparr>
      in case map_of AKN_NAMESPACES version of
           None \<Rightarrow> Inl (KeyError version)
         | Some ns \<Rightarrow>
            (let E = (\<lambda>name attrs kids. Element name [(None, ns)] attrs kids);
                 content = E ct [] [];
                 attrs = [(''name'', lower dt)]
             in Inr (E ''akomaNtoso'' []
               [E dt attrs
                 [E ''meta'' []
                   [E ''identification'' [(''source'', ''#cobalt'')]
                     [E ''FRBRWork'' []
                       [E ''FRBRthis'' [(''value'', FrbrUri_work_uri api frbr_uri True)] [],
                        E ''FRBRuri'' [(''value'', FrbrUri_work_uri api frbr_uri False)] [],
                        E ''FRBRalias'' [(''value'', ''Untitled''), (''name'', ''title'')] [],
                        E ''FRBRdate'' [(''date'', today), (''name'', ''Generation'')] [],
                        E ''FRBRauthor'' [(''href'', [])] [],
                        E ''FRBRcountry'' [(''value'', FrbrUri_place api frbr_uri)] [],
                        E ''FRBRnumber'' [(''value'', number frbr_uri)] []],
                      E ''FRBRExpression'' []
                       [E ''FRBRthis'' [(''value'', FrbrUri_expression_uri api frbr_uri True)] [],
                        E ''FRBRuri'' [(''value'', FrbrUri_expression_uri api frbr_uri False)] [],
                        E ''FRBRdate'' [(''date'', today), (''name'', ''Generation'')] [],
                        E ''FRBRauthor'' [(''href'', [])] [],
                        E ''FRBRlanguage'' [(''language'', language frbr_uri)] []],
                      E ''FRBRManifestation'' []
                       [E ''FRBRthis'' [(''value'', FrbrUri_manifestation_uri api frbr_uri True)] [],
                        E ''FRBRuri'' [(''value'', FrbrUri_manifestation_uri api frbr_uri False)] [],
                        E ''FRBRdate'' [(''date'', today), (''name'', ''Generation'')] [],
                        E ''FRBRauthor'' [(''href'', [])] []]],
                    E ''references'' [(''source'', ''#cobalt'')]
                     [E ''TLCOrganization''
                        [(''eId'', ''cobalt''), (''href'', ''https://github.com/laws-africa/cobalt''),
                         (''showAs'', ''cobalt'')] []]],
                  content]])))"

text \<open>The constructor: the given markup or, without one, the empty document of the default
  version; parsing and validation; the namespace; the element maker; and the two aliases, whose
  binding reads \<open>main\<close> and \<open>main_content\<close>.\<close>

definition StructuredDocument_init ::
  "collaborators \<Rightarrow> string \<Rightarrow> string \<Rightarrow> element option \<Rightarrow> error + document" where
  "StructuredDocument_init api dt ct xml =
     bindE (case xml of None \<Rightarrow> empty_document api dt ct DEFAULT_VERSION | Some x \<Rightarrow> Inr x) (\<lambda>x.
     bindE (StructuredDocument_parse dt x) (\<lambda>rt.
     bindE (get_namespace rt) (\<lambda>ns.
       let doc = \<lparr>root = rt, namespace = ns, maker_nsmap = nsmap rt,
                  document_type = dt, main_content_tag = ct\<rparr>
       in bindE (main doc) (\<lambda>_.
          bindE (main_content doc) (\<lambda>_. Inr doc)))))"

text \<open>The element a path refers to; a path that refers to nothing behaves like a missing
  attribute.\<close>

definition elem_at :: "document \<Rightarrow> path \<Rightarrow> error + element" where
  "elem_at doc p = (case get_at (root doc) p of
                      None \<Rightarrow> Inl (AttributeError ''no such element'')
                    | Some e \<Rightarrow> Inr e)"

section \<open>Typed accessors\<close>

text \<open>The getter of \<open>title\<close>: the loop over the alias children of the work block.\<close>

fun title_loop :: "element list \<Rightarrow> string option \<Rightarrow> string option" where
  "title_loop [] title = title"
| "title_loop (alias # rest) title =
     (if attr_get alias ''name'' = Some ''title'' then attr_get alias ''value''
      else title_loop rest (attr_get alias ''value''))"

definition title_getter :: "document \<Rightarrow> error + string option" where
  "title_getter doc =
     bindE (meta_chain doc [''identification'', ''FRBRWork'']) (\<lambda>w.
     bindE (elem_at doc w) (\<lambda>work.
       Inr (title_loop
              (filter (\<lambda>c. tag c = ''{'' @ namespace doc @ ''}FRBRalias'') (children work)) None)))"

text \<open>The setter of \<open>title\<close>. The query selects the alias children in the wrapper's namespace
  whose name is \<open>title\<close>; \<open>aliases[0]\<close> is the first of them.\<close>

definition title_setter :: "document \<Rightarrow> string \<Rightarrow> error + document" where
  "title_setter doc v =
     bindE (meta_chain doc [''identification'', ''FRBRWork'']) (\<lambda>w.
     bindE (elem_at doc w) (\<lambda>work.
       case first_index (\<lambda>c. tag c = ''{'' @ namespace doc @ ''}FRBRalias'' \<and>
                              attr_get c ''name'' = Some ''title'') (children work) of
         Some j \<Rightarrow> Inr (set_at (w @ [j]) ''value'' v doc)
       | None \<Rightarrow>
           bindE (meta_chain doc [''identification'', ''FRBRWork'', ''FRBRuri'']) (\<lambda>after.
           bindE (ensure_element doc ''meta.identification.FRBRWork.FRBRalias'' after None)
             (\<lambda>(alias, doc1).
           bindE (node_path alias) (\<lambda>a.
             Inr (set_at a ''value'' v (set_at a ''name'' ''title'' doc1)))))))"

text \<open>The date setters and getters.\<close>

definition work_date_setter :: "document \<Rightarrow> datearg \<Rightarrow> error + document" where
  "work_date_setter doc v =
     bindE (meta_chain doc [''identification'', ''FRBRWork'', ''FRBRdate'']) (\<lambda>q.
       Inr (set_at q ''date'' (datestring v) doc))"

definition manifestation_date_setter :: "document \<Rightarrow> datearg \<Rightarrow> error + document" where
  "manifestation_date_setter doc v =
     bindE (meta_chain doc [''identification'', ''FRBRManifestation'', ''FRBRdate'']) (\<lambda>q.
       Inr (set_at q ''date'' (datestring v) doc))"

definition expression_date_getter :: "collaborators \<Rightarrow> document \<Rightarrow> error + pydate" where
  "expression_date_getter api doc =
     bindE (meta_chain doc [''identification'', ''FRBRExpression'', ''FRBRdate'']) (\<lambda>q.
       parse_date api (attr_at (root doc) q ''date''))"

text \<open>The getter of \<open>language\<close> and of \<open>frbr_uri\<close> (which returns \<open>None\<close> when the
  manifestation URI is absent or empty).\<close>

definition language_getter :: "document \<Rightarrow> error + string" where
  "language_getter doc =
     bindE (meta_chain doc [''identification'', ''FRBRExpression'', ''FRBRlanguage'']) (\<lambda>q.
     bindE (elem_at doc q) (\<lambda>e. Inr (attr_get_default e ''language'' ''eng'')))"

definition frbr_uri_getter :: "collaborators \<Rightarrow> document \<Rightarrow> error + frbr_uri option" where
  "frbr_uri_getter api doc =
     bindE (meta_chain doc [''identification'', ''FRBRManifestation'', ''FRBRuri'']) (\<lambda>q.
       case attr_at (root doc) q ''value'' of
         None \<Rightarrow> Inr None
       | Some u \<Rightarrow> (if u = [] then Inr None
                    else bindE (FrbrUri_parse api (Some u)) (\<lambda>r. Inr (Some r))))"

section \<open>Components\<close>

text \<open>The child elements of an element with their indexes, in document order.\<close>

definition indexed_children :: "element \<Rightarrow> (nat \<times> element) list" where
  "indexed_children e = enumerate 0 (children e)"

text \<open>
  The query of \<open>components\<close>, evaluated at the main element: the meta elements at
  \<open>attachments/attachment/*/meta\<close> and \<open>components/component/*/meta\<close>, every step in the
  wrapper's namespace, in document order. The result gives each meta element by its path from
  the main element.
\<close>

definition xpath_metas :: "string \<Rightarrow> element \<Rightarrow> path list" where
  "xpath_metas ns me =
     [[a, b, c, m].
        (a, ea) \<leftarrow> indexed_children me,
        tag ea = ''{'' @ ns @ ''}attachments'' \<or> tag ea = ''{'' @ ns @ ''}components'',
        (b, eb) \<leftarrow> indexed_children ea,
        tag eb = (if tag ea = ''{'' @ ns @ ''}attachments''
                  then ''{'' @ ns @ ''}attachment'' else ''{'' @ ns @ ''}component''),
        (c, ec) \<leftarrow> indexed_children eb,
        namespace_of (tag ec) = Some ns,
        (m, em) \<leftarrow> indexed_children ec,
        tag em = ''{'' @ ns @ ''}meta'']"

text \<open>The loop of \<open>components\<close>: the ordered dictionary keeps the place of a key that is
  assigned again and replaces its value.\<close>

fun components_loop ::
  "collaborators \<Rightarrow> document \<Rightarrow> path list \<Rightarrow> (string option \<times> path) list
     \<Rightarrow> error + (string option \<times> path) list" where
  "components_loop api doc [] comps = Inr comps"
| "components_loop api doc (m # ms) comps =
     bindE (getattr_chain (root doc) m [''identification'', ''FRBRWork'', ''FRBRthis'']) (\<lambda>q.
     bindE (FrbrUri_parse api (attr_at (root doc) q ''value'')) (\<lambda>frbr_uri.
       components_loop api doc ms (AList.update (work_component frbr_uri) (butlast m) comps)))"

definition components ::
  "collaborators \<Rightarrow> document \<Rightarrow> error + (string option \<times> path) list" where
  "components api doc =
     bindE (meta_chain doc [''identification'', ''FRBRWork'', ''FRBRthis'']) (\<lambda>q.
     bindE (FrbrUri_parse api (attr_at (root doc) q ''value'')) (\<lambda>frbr_uri.
     bindE (main doc) (\<lambda>mp.
     bindE (elem_at doc mp) (\<lambda>me.
       components_loop api doc (map (\<lambda>r. mp @ r) (xpath_metas (namespace doc) me))
         [(work_component frbr_uri, mp)]))))"

section \<open>Identifying-URI synchronisation\<close>

text \<open>The descendants of an element in document order, by their paths from it.\<close>

fun descendants :: "element \<Rightarrow> path list"
  and descendants_from :: "nat \<Rightarrow> element list \<Rightarrow> path list" where
  "descendants (Element t ns as cs) = descendants_from 0 cs"
| "descendants_from i [] = []"
| "descendants_from i (c # cs) =
     ([i] # map (\<lambda>p. i # p) (descendants c)) @ descendants_from (Suc i) cs"

text \<open>\<open>element.find('.//{ns}meta/{ns}identification')\<close>: the first identification child of
  a meta descendant, meta elements taken in document order.\<close>

definition find_ident :: "string \<Rightarrow> element \<Rightarrow> path option" where
  "find_ident ns e =
     (case [m @ [j].
              m \<leftarrow> descendants e,
              me \<leftarrow> (case get_at e m of None \<Rightarrow> [] | Some x \<Rightarrow> [x]),
              tag me = ''{'' @ ns @ ''}meta'',
              (j, c) \<leftarrow> indexed_children me,
              tag c = ''{'' @ ns @ ''}identification''] of
        [] \<Rightarrow> None
      | q # _ \<Rightarrow> Some q)"

text \<open>
  The body of the loop of the setter, from the first write to the last. Every element it reads
  or writes is reached from \<open>ident\<close>, so it runs on the wrapper with the identification block
  as its tree: node references are paths from the block.
\<close>

definition set_chain ::
  "document \<Rightarrow> string list \<Rightarrow> string \<Rightarrow> string \<Rightarrow> error + document" where
  "set_chain d names k v =
     bindE (getattr_chain (root d) [] names) (\<lambda>q. Inr (set_at q k v d))"

definition ensure_and_set :: "document \<Rightarrow> string \<Rightarrow> string \<Rightarrow> error + document" where
  "ensure_and_set d name v =
     bindE (getattr_chain (root d) [] [''FRBRWork'']) (\<lambda>at.
     bindE (getattr_chain (root d) [] [''FRBRWork'', ''FRBRcountry'']) (\<lambda>after.
     bindE (ensure_element d name after (Some at)) (\<lambda>(node, d1).
     bindE (node_path node) (\<lambda>p. Inr (set_at p ''value'' v d1)))))"

definition remove_subtype :: "document \<Rightarrow> error + document" where
  "remove_subtype d =
     (case getattr_chain (root d) [] [''FRBRWork'', ''FRBRsubtype''] of
        Inl (AttributeError m) \<Rightarrow> Inr d
      | Inl e \<Rightarrow> Inl e
      | Inr q \<Rightarrow> Inr (d\<lparr>root := remove_child (butlast q) (last q) (root d)\<rparr>))"

definition sync_ident :: "collaborators \<Rightarrow> document \<Rightarrow> frbr_uri \<Rightarrow> error + document" where
  "sync_ident api d uri =
     bindE (set_chain d [''FRBRWork'', ''FRBRuri''] ''value'' (FrbrUri_uri api uri)) (\<lambda>d.
     bindE (set_chain d [''FRBRWork'', ''FRBRthis''] ''value'' (FrbrUri_work_uri api uri True)) (\<lambda>d.
     bindE (set_chain d [''FRBRWork'', ''FRBRcountry''] ''value'' (FrbrUri_place api uri)) (\<lambda>d.
     bindE (ensure_and_set d ''FRBRnumber'' (number uri)) (\<lambda>d.
     bindE (case subtype uri of
              None \<Rightarrow> remove_subtype d
            | Some s \<Rightarrow> (if s = [] then remove_subtype d
                         else ensure_and_set d ''FRBRsubtype'' s)) (\<lambda>d.
     bindE (set_chain d [''FRBRExpression'', ''FRBRuri''] ''value''
              (FrbrUri_expression_uri api uri False)) (\<lambda>d.
     bindE (set_chain d [''FRBRExpression'', ''FRBRthis''] ''value''
              (FrbrUri_expression_uri api uri True)) (\<lambda>d.
     bindE (set_chain d [''FRBRManifestation'', ''FRBRuri''] ''value''
              (FrbrUri_expression_uri api uri False)) (\<lambda>d.
            set_chain d [''FRBRManifestation'', ''FRBRthis''] ''value''
              (FrbrUri_expression_uri api uri True)))))))))"

text \<open>One round of the loop for the component element at \<open>el\<close>: locate the identification
  block below it (a failed search gives \<open>None\<close>, whose attribute read raises), run the body on
  the block, and put the block back in its place.\<close>

definition sync_component ::
  "collaborators \<Rightarrow> document \<Rightarrow> frbr_uri \<Rightarrow> path \<Rightarrow> error + document" where
  "sync_component api doc uri el =
     bindE (elem_at doc el) (\<lambda>e.
       case find_ident (namespace doc) e of
         None \<Rightarrow> Inl (AttributeError ''FRBRWork'')
       | Some r \<Rightarrow>
           bindE (elem_at doc (el @ r)) (\<lambda>ident.
           bindE (sync_ident api (doc\<lparr>root := ident\<rparr>) uri) (\<lambda>d.
             Inr (doc\<lparr>root := upd_at (el @ r) (\<lambda>_. root d) (root doc)\<rparr>))))"

text \<open>The loop over the components. The URI object is mutated in place; the loop returns it
  with the document.\<close>

fun sync_loop ::
  "collaborators \<Rightarrow> (string option \<times> path) list \<Rightarrow> document \<Rightarrow> frbr_uri
     \<Rightarrow> error + (document \<times> frbr_uri)" where
  "sync_loop api [] doc uri = Inr (doc, uri)"
| "sync_loop api ((component, el) # rest) doc uri =
     (let uri = uri\<lparr>work_component := component\<rparr> in
      bindE (sync_component api doc uri el) (\<lambda>doc. sync_loop api rest doc uri))"

text \<open>The setter of \<open>frbr_uri\<close>. The argument is a URI object (\<open>Inl\<close>) or anything else,
  a string or \<open>None\<close>, which is parsed. The result is the document and the URI object as the
  setter leaves it.\<close>

definition frbr_uri_setter ::
  "collaborators \<Rightarrow> document \<Rightarrow> frbr_uri + string option \<Rightarrow> error + (document \<times> frbr_uri)" where
  "frbr_uri_setter api doc arg =
     bindE (case arg of Inl u \<Rightarrow> Inr u | Inr s \<Rightarrow> FrbrUri_parse api s) (\<lambda>uri.
     bindE (language_getter doc) (\<lambda>lang.
     bindE (expression_date_getter api doc) (\<lambda>d.
       let uri = uri\<lparr>language := lang\<rparr>;
           uri = uri\<lparr>expression_date := Some (''@'' @ datestring (DDate d))\<rparr>;
           uri = (if work_component uri = None then uri\<lparr>work_component := Some ''main''\<rparr> else uri)
       in bindE (components api doc) (\<lambda>comps. sync_loop api comps doc uri))))"

text \<open>The setters of \<open>language\<close> and \<open>expression_date\<close>: the write, then
  \<open>self.frbr_uri = self.frbr_uri\<close>.\<close>

definition resync :: "collaborators \<Rightarrow> document \<Rightarrow> error + document" where
  "resync api doc =
     bindE (frbr_uri_getter api doc) (\<lambda>u.
     bindE (frbr_uri_setter api doc (case u of Some x \<Rightarrow> Inl x | None \<Rightarrow> Inr None)) (\<lambda>(doc, _).
       Inr doc))"

definition language_setter :: "collaborators \<Rightarrow> document \<Rightarrow> string \<Rightarrow> error + document" where
  "language_setter api doc v =
     bindE (meta_chain doc [''identification'', ''FRBRExpression'', ''FRBRlanguage'']) (\<lambda>q.
       resync api (set_at q ''language'' v doc))"

definition expression_date_setter ::
  "collaborators \<Rightarrow> document \<Rightarrow> datearg \<Rightarrow> error + document" where
  "expression_date_setter api doc v =
     bindE (meta_chain doc [''identification'', ''FRBRExpression'', ''FRBRdate'']) (\<lambda>q.
       resync api (set_at q ''date'' (datestring v) doc))"

section \<open>Lifecycle and references\<close>

text \<open>
  \<open>_ensure_lifecycle\<close> and \<open>_ensure_reference\<close> call each other. The first argument bounds
  the depth of the calls: \<open>None\<close> is a run that does not return within the bound.
\<close>

definition bindF ::
  "(error + 'a) option \<Rightarrow> ('a \<Rightarrow> (error + 'b) option) \<Rightarrow> (error + 'b) option" where
  "bindF m f = (case m of None \<Rightarrow> None | Some (Inl e) \<Rightarrow> Some (Inl e) | Some (Inr x) \<Rightarrow> f x)"

definition lifecycle_after :: "document \<Rightarrow> error + path" where
  "lifecycle_after doc =
     (case meta_chain doc [''publication''] of
        Inl (AttributeError m) \<Rightarrow> meta_chain doc [''identification'']
      | r \<Rightarrow> r)"

fun ensure_lifecycle :: "nat \<Rightarrow> document \<Rightarrow> (error + (path \<times> document)) option"
  and ensure_reference ::
    "nat \<Rightarrow> document \<Rightarrow> string \<Rightarrow> string \<Rightarrow> string \<Rightarrow> string \<Rightarrow> (error + (path \<times> document)) option"
where
  "ensure_lifecycle 0 doc = None"
| "ensure_lifecycle (Suc n) doc =
     bindF (Some (lifecycle_after doc)) (\<lambda>after.
     bindF (Some (ensure_element doc ''meta.lifecycle'' after None)) (\<lambda>(node, doc).
     bindF (Some (node_path node)) (\<lambda>p.
       if attr_at (root doc) p ''source'' = None \<or> attr_at (root doc) p ''source'' = Some []
       then bindF (ensure_reference n (set_at p ''source'' (''#'' @ source ! 1) doc)
                     ''TLCOrganization'' (source ! 0) (source ! 1) (source ! 2))
              (\<lambda>(r, doc). Some (Inr (p, doc)))
       else Some (Inr (p, doc)))))"
| "ensure_reference 0 doc elem name ident href = None"
| "ensure_reference (Suc n) doc elem name ident href =
     bindF (ensure_lifecycle n doc) (\<lambda>(lc, doc).
     bindF (Some (ensure_element doc ''meta.references'' lc None)) (\<lambda>(node, doc).
     bindF (Some (node_path node)) (\<lambda>refs.
     bindF (Some (elem_at doc refs)) (\<lambda>re.
       case first_index (\<lambda>c. tag c = ''{'' @ namespace doc @ ''}'' @ elem \<and>
                              attr_get c ''eId'' = Some ident) (children re) of
         Some j \<Rightarrow> Some (Inr (refs @ [j], doc))
       | None \<Rightarrow>
           (let ref = attr_set ''showAs'' name (attr_set ''href'' href
                        (attr_set ''eId'' ident (make_element doc elem)))
            in Some (Inr (refs @ [0], doc\<lparr>root := insert_first refs ref (root doc)\<rparr>)))))))"

section \<open>Reading the tree\<close>

text \<open>
  Notions used to state the properties below. A function on elements is attribute-only when it
  keeps the tag and the children. \<open>named_child\<close> is the direct named-child lookup: the first
  child whose tag is the name, taken in the namespace of the parent; \<open>follow\<close> follows a list
  of names by such lookups, and \<open>read_attr\<close> reads an attribute of the element reached.
\<close>

definition attr_only :: "(element \<Rightarrow> element) \<Rightarrow> bool" where
  "attr_only f \<longleftrightarrow> (\<forall>e. tag (f e) = tag e \<and> children (f e) = children e)"

definition named_child :: "element \<Rightarrow> string \<Rightarrow> element option" where
  "named_child e n = List.find (\<lambda>c. tag c = child_tag (tag e) n) (children e)"

fun follow :: "element \<Rightarrow> string list \<Rightarrow> element option" where
  "follow e [] = Some e"
| "follow e (n # ns) = (case named_child e n of None \<Rightarrow> None | Some c \<Rightarrow> follow c ns)"

definition read_attr :: "element \<Rightarrow> string list \<Rightarrow> string \<Rightarrow> string option" where
  "read_attr e names k = (case follow e names of None \<Rightarrow> None | Some x \<Rightarrow> attr_get x k)"

text \<open>The namespace URIs declared anywhere in a tree: those bound at its root and those bound
  at any element below it.\<close>

fun tree_namespaces :: "element \<Rightarrow> string list" where
  "tree_namespaces (Element t ns as cs) = map snd ns @ concat (map tree_namespaces cs)"

text \<open>A name that is not written with a namespace of its own.\<close>

definition plain_name :: "string \<Rightarrow> bool" where
  "plain_name s \<longleftrightarrow> s \<noteq> [] \<and> hd s \<noteq> CHR ''{''"

text \<open>
  The lifecycle blocks of a document: the children of its meta element that are lifecycle
  elements of the wrapper's namespace. Its matching organisation references: the organisation
  references with the tool's id in the references blocks of the meta element.
\<close>

definition meta_children :: "document \<Rightarrow> element list" where
  "meta_children doc =
     (case meta doc of
        Inl e \<Rightarrow> []
      | Inr m \<Rightarrow> (case get_at (root doc) m of None \<Rightarrow> [] | Some me \<Rightarrow> children me))"

definition lifecycle_blocks :: "document \<Rightarrow> element list" where
  "lifecycle_blocks doc =
     filter (\<lambda>c. tag c = ''{'' @ namespace doc @ ''}lifecycle'') (meta_children doc)"

definition org_references :: "document \<Rightarrow> element list" where
  "org_references doc =
     concat (map (\<lambda>c. filter (\<lambda>r. tag r = ''{'' @ namespace doc @ ''}TLCOrganization'' \<and>
                                    attr_get r ''eId'' = Some (source ! 1)) (children c))
                 (filter (\<lambda>c. tag c = ''{'' @ namespace doc @ ''}references'') (meta_children doc)))"

text \<open>A document is ready when \<open>_ensure_lifecycle\<close> has nothing to do: the element after
  which a lifecycle block would go exists, the lifecycle block is found at \<open>p\<close>, and it has a
  source.\<close>

definition lifecycle_ready :: "document \<Rightarrow> path \<Rightarrow> bool" where
  "lifecycle_ready doc p \<longleftrightarrow>
     (\<exists>a. lifecycle_after doc = Inr a) \<and>
     meta_chain doc [''lifecycle''] = Inr p \<and>
     (\<exists>s. attr_at (root doc) p ''source'' = Some s \<and> s \<noteq> [])"

text \<open>The document with its meta element, at \<open>m\<close>, replaced.\<close>

definition put_meta :: "document \<Rightarrow> path \<Rightarrow> element \<Rightarrow> document" where
  "put_meta doc m me = doc\<lparr>root := upd_at m (\<lambda>_. me) (root doc)\<rparr>"

text \<open>The index of the child that the lookup \<open>e.n\<close> finds.\<close>

definition child_index :: "element \<Rightarrow> string \<Rightarrow> nat option" where
  "child_index e n = first_index (\<lambda>c. tag c = child_tag (tag e) n) (children e)"

text \<open>The number of matching organisation references among the children \<open>cs\<close> of a meta
  element, for the namespace \<open>ns\<close>.\<close>

definition org_match :: "string \<Rightarrow> element \<Rightarrow> bool" where
  "org_match ns r \<longleftrightarrow>
     tag r = ''{'' @ ns @ ''}TLCOrganization'' \<and> attr_get r ''eId'' = Some (source ! 1)"

definition block_count :: "string \<Rightarrow> element \<Rightarrow> nat" where
  "block_count ns c =
     (if tag c = ''{'' @ ns @ ''}references'' then length (filter (org_match ns) (children c))
      else 0)"

definition org_count :: "string \<Rightarrow> element list \<Rightarrow> nat" where
  "org_count ns cs = sum_list (map (block_count ns) cs)"

text \<open>The organisation reference that \<open>_ensure_reference\<close> builds for the tool.\<close>

definition org_ref :: "document \<Rightarrow> string \<Rightarrow> string \<Rightarrow> element" where
  "org_ref doc nm href =
     attr_set ''showAs'' nm (attr_set ''href'' href
       (attr_set ''eId'' (source ! 1) (make_element doc ''TLCOrganization'')))"

text \<open>
  What the synchronisation of the identifying URIs leaves alone. A tree is a URI variant of
  another when it differs from it at most in \<open>value\<close> attributes and below elements whose tag
  ends in \<open>FRBRWork\<close>: tags are the same, all attributes other than \<open>value\<close> are the same,
  and the children correspond one to one, except below such elements.
\<close>

inductive uri_variant :: "element \<Rightarrow> element \<Rightarrow> bool" where
  uri_variant_work:
    "tag t' = tag t \<Longrightarrow> (\<forall>k. k \<noteq> ''value'' \<longrightarrow> attr_get t' k = attr_get t k) \<Longrightarrow>
     suffix ''FRBRWork'' (tag t) \<Longrightarrow> uri_variant t t'"
| uri_variant_children:
    "tag t' = tag t \<Longrightarrow> (\<forall>k. k \<noteq> ''value'' \<longrightarrow> attr_get t' k = attr_get t k) \<Longrightarrow>
     list_all2 uri_variant (children t) (children t') \<Longrightarrow> uri_variant t t'"

text \<open>The same for a whole document tree, whose root and whose children of the root keep
  their children one to one whatever their tags: the synchronisation works at least three
  levels below the root.\<close>

definition child_variant :: "element \<Rightarrow> element \<Rightarrow> bool" where
  "child_variant c c' \<longleftrightarrow>
     tag c' = tag c \<and> (\<forall>k. k \<noteq> ''value'' \<longrightarrow> attr_get c' k = attr_get c k) \<and>
     list_all2 uri_variant (children c) (children c')"

definition tree_variant :: "element \<Rightarrow> element \<Rightarrow> bool" where
  "tree_variant t t' \<longleftrightarrow>
     tag t' = tag t \<and> (\<forall>k. k \<noteq> ''value'' \<longrightarrow> attr_get t' k = attr_get t k) \<and>
     list_all2 child_variant (children t) (children t')"

section \<open>A sample instance and sample documents\<close>

text \<open>
  Modelled from the spec: a stand-in for the identifying-URI type and the date parser, which
  are outside this module. The spec fixes their interface only; this instance, with URIs of the
  shape \<open>/akn/country/doctype/date/number/language@date/!component\<close>, serves to run the
  model on concrete documents. Every property below is proved for all instances.
\<close>

definition sample_place :: "frbr_uri \<Rightarrow> string" where
  "sample_place u = country u @ (case locality u of None \<Rightarrow> [] | Some l \<Rightarrow> ''-'' @ l)"

definition sample_component_suffix :: "frbr_uri \<Rightarrow> bool \<Rightarrow> string" where
  "sample_component_suffix u wc =
     (if wc then (case work_component u of None \<Rightarrow> [] | Some c \<Rightarrow> ''/!'' @ c) else [])"

definition sample_work_uri :: "frbr_uri \<Rightarrow> bool \<Rightarrow> string" where
  "sample_work_uri u wc =
     ''/'' @ (if uri_prefix u = [] then [] else uri_prefix u @ ''/'') @ sample_place u @ ''/'' @
     doctype u @ ''/'' @ date u @ ''/'' @ number u @ sample_component_suffix u wc"

definition sample_expression_uri :: "frbr_uri \<Rightarrow> bool \<Rightarrow> string" where
  "sample_expression_uri u wc =
     sample_work_uri u False @ ''/'' @ language u @
     (case expression_date u of None \<Rightarrow> [] | Some d \<Rightarrow> d) @ sample_component_suffix u wc"

definition sample_parse :: "string option \<Rightarrow> error + frbr_uri" where
  "sample_parse arg =
     (case arg of
        None \<Rightarrow> Inl (TypeError ''expected string'')
      | Some s \<Rightarrow>
          (let parts = split_on (CHR ''/'') s in
           if length parts < 6 \<or> parts ! 0 \<noteq> [] \<or> parts ! 1 \<noteq> ''akn''
           then Inl (ValueError (''Invalid FRBR URI: '' @ s))
           else
             (let rest = drop 6 parts;
                  comps = filter (\<lambda>x. x \<noteq> [] \<and> hd x = CHR ''!'') rest;
                  exprs = filter (\<lambda>x. x \<noteq> [] \<and> hd x \<noteq> CHR ''!'') rest
              in Inr \<lparr>uri_prefix = ''akn'', country = parts ! 2, locality = None,
                      doctype = parts ! 3, subtype = None, actor = None,
                      date = parts ! 4, number = parts ! 5,
                      work_component = (case comps of [] \<Rightarrow> Some ''main'' | x # _ \<Rightarrow> Some (tl x)),
                      language = (case exprs of [] \<Rightarrow> ''eng''
                                  | x # _ \<Rightarrow> takeWhile (\<lambda>c. c \<noteq> CHR ''@'') x),
                      expression_date =
                        (case exprs of [] \<Rightarrow> None
                         | x # _ \<Rightarrow> (case dropWhile (\<lambda>c. c \<noteq> CHR ''@'') x of
                                       [] \<Rightarrow> None | d \<Rightarrow> Some d))\<rparr>)))"

definition sample_number :: "string \<Rightarrow> nat" where
  "sample_number s = foldl (\<lambda>n c. 10 * n + (of_char c - 48)) 0 s"

definition sample_parse_date :: "string option \<Rightarrow> error + pydate" where
  "sample_parse_date arg =
     (case arg of
        None \<Rightarrow> Inl (TypeError ''expected string'')
      | Some s \<Rightarrow>
          (if length s = 10
           then Inr \<lparr>year = sample_number (take 4 s), month = sample_number (take 2 (drop 5 s)),
                     day = sample_number (drop 8 s)\<rparr>
           else Inl (ValueError (''Unable to parse date string '' @ s))))"

definition sample_api :: collaborators where
  "sample_api =
     \<lparr>FrbrUri_parse = sample_parse,
      FrbrUri_uri = (\<lambda>u. sample_work_uri u False),
      FrbrUri_work_uri = sample_work_uri,
      FrbrUri_expression_uri = sample_expression_uri,
      FrbrUri_manifestation_uri = sample_expression_uri,
      FrbrUri_place = sample_place,
      FrbrUri_empty = \<lparr>uri_prefix = ''akn'', country = [], locality = None, doctype = [],
                        subtype = None, actor = None, date = [], number = [],
                        work_component = None, language = ''eng'', expression_date = None\<rparr>,
      parse_date = sample_parse_date,
      date_today = \<lparr>year = 2024, month = 2, day = 29\<rparr>\<rparr>"

text \<open>
  A sample act in the 3.0 namespace with one attachment. The aliases of the work block and the
  other children of the meta element are parameters, to vary the sample.
\<close>

definition akn3 :: string where
  "akn3 = ''http://docs.oasis-open.org/legaldocml/ns/akn/3.0''"

definition el :: "string \<Rightarrow> (string \<times> string) list \<Rightarrow> element list \<Rightarrow> element" where
  "el name attrs kids = Element (''{'' @ akn3 @ ''}'' @ name) [] attrs kids"

definition sample_attachment :: element where
  "sample_attachment =
     el ''attachment'' []
       [el ''doc'' [(''name'', ''schedule'')]
          [el ''meta'' []
             [el ''identification'' [(''source'', ''#cobalt'')]
                [el ''FRBRWork'' []
                   [el ''FRBRthis'' [(''value'', ''/akn/za/act/2020/1/!schedule1'')] [],
                    el ''FRBRuri'' [(''value'', ''/akn/za/act/2020/1'')] [],
                    el ''FRBRcountry'' [(''value'', ''za'')] [],
                    el ''FRBRsubtype'' [(''value'', ''old'')] []],
                 el ''FRBRExpression'' []
                   [el ''FRBRthis'' [(''value'', ''/akn/za/act/2020/1/eng@2020-01-01/!schedule1'')] [],
                    el ''FRBRuri'' [(''value'', ''/akn/za/act/2020/1/eng@2020-01-01'')] []],
                 el ''FRBRManifestation'' []
                   [el ''FRBRthis'' [(''value'', ''/akn/za/act/2020/1/eng@2020-01-01/!schedule1'')] [],
                    el ''FRBRuri'' [(''value'', ''/akn/za/act/2020/1/eng@2020-01-01'')] []]]],
           el ''mainBody'' [] []]]"

definition sample_work :: "element list \<Rightarrow> element" where
  "sample_work aliases =
     el ''FRBRWork'' []
       ([el ''FRBRthis'' [(''value'', ''/akn/za/act/2020/1/!main'')] [],
         el ''FRBRuri'' [(''value'', ''/akn/za/act/2020/1'')] []] @ aliases @
        [el ''FRBRdate'' [(''date'', ''2020-01-01''), (''name'', ''Generation'')] [],
         el ''FRBRauthor'' [(''href'', [])] [],
         el ''FRBRcountry'' [(''value'', ''za'')] []])"

definition sample_tree :: "element list \<Rightarrow> element list \<Rightarrow> element" where
  "sample_tree aliases more_meta =
     Element (''{'' @ akn3 @ ''}akomaNtoso'') [(None, akn3)] []
       [el ''act'' [(''name'', ''act'')]
          [el ''meta'' []
             (el ''identification'' [(''source'', ''#cobalt'')]
                [sample_work aliases,
                 el ''FRBRExpression'' []
                   [el ''FRBRthis'' [(''value'', ''/akn/za/act/2020/1/eng@2020-01-01/!main'')] [],
                    el ''FRBRuri'' [(''value'', ''/akn/za/act/2020/1/eng@2020-01-01'')] [],
                    el ''FRBRdate'' [(''date'', ''2020-01-01''), (''name'', ''Generation'')] [],
                    el ''FRBRauthor'' [(''href'', [])] [],
                    el ''FRBRlanguage'' [(''language'', ''eng'')] []],
                 el ''FRBRManifestation'' []
                   [el ''FRBRthis'' [(''value'', ''/akn/za/act/2020/1/eng@2020-01-01/!main'')] [],
                    el ''FRBRuri'' [(''value'', ''/akn/za/act/2020/1/eng@2020-01-01'')] [],
                    el ''FRBRdate'' [(''date'', ''2020-01-01''), (''name'', ''Generation'')] [],
                    el ''FRBRauthor'' [(''href'', [])] []]]
              # more_meta),
           el ''body'' [] [],
           el ''attachments'' [] [sample_attachment]]]"

definition sample_doc :: "element list \<Rightarrow> element list \<Rightarrow> document" where
  "sample_doc aliases more_meta =
     \<lparr>root = sample_tree aliases more_meta, namespace = akn3, maker_nsmap = [(None, akn3)],
      document_type = ''act'', main_content_tag = ''body''\<rparr>"

section \<open>Facts about the tree operations\<close>

lemma bindE_Inl [simp]: "bindE (Inl e) f = Inl e"
  by (simp add: bindE_def)

lemma bindE_Inr [simp]: "bindE (Inr x) f = f x"
  by (simp add: bindE_def)

lemma bindE_eq_Inr: "bindE m f = Inr y \<longleftrightarrow> (\<exists>x. m = Inr x \<and> f x = Inr y)"
  by (cases m) simp_all

lemma first_index_SomeD: "first_index P xs = Some i \<Longrightarrow> i < length xs \<and> P (xs ! i)"
  by (induction xs arbitrary: i) (auto split: if_splits)

lemma first_index_None_iff: "first_index P xs = None \<longleftrightarrow> (\<forall>x \<in> set xs. \<not> P x)"
  by (induction xs) auto

lemma first_index_before: "first_index P xs = Some i \<Longrightarrow> j < i \<Longrightarrow> \<not> P (xs ! j)"
  by (induction xs arbitrary: i j) (auto split: if_splits simp: nth_Cons split: nat.splits)

lemma first_index_map: "first_index P (map f xs) = first_index (\<lambda>x. P (f x)) xs"
  by (induction xs) auto

lemma first_index_find: "List.find P xs = map_option (\<lambda>i. xs ! i) (first_index P xs)"
  by (induction xs) (auto simp: option.map_comp comp_def)

lemma get_at_append:
  "get_at t (p @ q) = (case get_at t p of None \<Rightarrow> None | Some e \<Rightarrow> get_at e q)"
  by (induction p arbitrary: t) auto

lemma upd_at_append: "upd_at (p @ q) f t = upd_at p (upd_at q f) t"
  by (induction p arbitrary: t) auto

lemma tag_upd_at: "(\<And>e. tag (f e) = tag e) \<Longrightarrow> tag (upd_at q f t) = tag t"
  by (cases q) auto

lemma attr_only_attr_set [simp]: "attr_only (attr_set k v)"
  by (simp add: attr_only_def attr_set_def)

lemma get_at_upd_at_shape:
  assumes "attr_only f"
  shows "rel_option (\<lambda>a b. tag a = tag b \<and> map tag (children a) = map tag (children b))
           (get_at (upd_at q f t) p) (get_at t p)"
  using assms
proof (induction p arbitrary: q t)
  case Nil
  then show ?case
    apply (cases q)
     apply (simp add: attr_only_def)
    apply (auto simp: map_update attr_only_def tag_upd_at intro!: nth_equalityI simp: nth_list_update)
    done
next
  case (Cons i p)
  show ?case
  proof (cases q)
    case Nil
    then show ?thesis using Cons.prems
      by (auto simp: attr_only_def option.rel_refl)
  next
    case (Cons j q')
    then show ?thesis using Cons.IH [OF Cons.prems]
      by (auto simp: nth_list_update option.rel_refl)
  qed
qed

lemma objectify_getattr_upd_at:
  assumes "attr_only f"
  shows "objectify_getattr (upd_at q f t) p n = objectify_getattr t p n"
proof -
  have r: "rel_option (\<lambda>a b. tag a = tag b \<and> map tag (children a) = map tag (children b))
           (get_at (upd_at q f t) p) (get_at t p)"
    using assms by (rule get_at_upd_at_shape)
  have fi: "first_index (\<lambda>c. tag c = T) cs = first_index (\<lambda>x. x = T) (map tag cs)" for T cs
    by (simp add: first_index_map)
  show ?thesis
    using r
    by (cases "get_at (upd_at q f t) p"; cases "get_at t p")
       (auto simp: objectify_getattr_def fi split: option.splits)
qed

lemma getattr_chain_upd_at:
  assumes "attr_only f"
  shows "getattr_chain (upd_at q f t) p ns = getattr_chain t p ns"
  by (induction ns arbitrary: p) (simp_all add: objectify_getattr_upd_at [OF assms])

lemma get_at_upd_at_same:
  "get_at t q = Some e \<Longrightarrow> get_at (upd_at q f t) q = Some (f e)"
  by (induction q arbitrary: t) (auto split: if_splits)

lemma attr_at_upd_at_set:
  "attr_at (upd_at q (attr_set k v) t) p k' =
     (if p = q \<and> k = k' \<and> get_at t q \<noteq> None then Some v else attr_at t p k')"
proof (induction p arbitrary: q t)
  case Nil
  then show ?case
    by (cases q) (auto simp: attr_at_def attr_get_def attr_set_def update_conv')
next
  case (Cons i p)
  show ?case
  proof (cases q)
    case Nil
    then show ?thesis by (auto simp: attr_at_def attr_set_def)
  next
    case (Cons j q')
    show ?thesis
    proof (cases "i = j \<and> j < length (children t)")
      case True
      then show ?thesis
        using Cons.IH [of q' "children t ! j"] Cons
        by (simp add: attr_at_def)
    next
      case False
      then show ?thesis using Cons by (auto simp: attr_at_def)
    qed
  qed
qed

section \<open>Namespace resolution\<close>

lemma akn_namespaces_eval: "akn_namespaces = [''http://docs.oasis-open.org/legaldocml/ns/akn/3.0'', ''http://www.akomantoso.org/2.0'']"
  unfolding akn_namespaces_def AKN_NAMESPACES_def by code_simp

lemma set_akn_namespaces: "set akn_namespaces = snd ` set AKN_NAMESPACES"
  by (simp add: akn_namespaces_def)

lemma sublist_join: "u \<in> set xs \<Longrightarrow> sublist u (join sep xs)"
proof (induction sep xs rule: join.induct)
  case (1 sep)
  then show ?case by simp
next
  case (2 sep x)
  then show ?case by simp
next
  case (3 sep x y ys)
  show ?case
  proof (cases "u = x")
    case True
    then show ?thesis by (simp add: sublist_append)
  next
    case False
    with 3 have "sublist u (join sep (y # ys))" by simp
    then show ?thesis by (simp add: sublist_append)
  qed
qed

lemma sublist_mid: "sublist u x \<Longrightarrow> sublist u (a @ x @ b)"
  unfolding sublist_def by (metis append.assoc)


lemma get_namespace_none:
  assumes "List.find (\<lambda>ns. ns \<in> snd ` set (nsmap rt)) akn_namespaces = None"
  shows "\<exists>a b. get_namespace rt =
           Inl (ValueError (a @ join '', '' akn_namespaces @ b @ join '', '' (map snd (nsmap rt))))"
proof -
  from assms have "get_namespace rt =
     Inl (ValueError
          (''Expected to find one of the following Akoma Ntoso XML namespaces: '' @
           join '', '' akn_namespaces @
           ''. Only these namespaces were found: '' @ join '', '' (map snd (nsmap rt))))"
    unfolding get_namespace_def Let_def by simp
  then show ?thesis by blast
qed


text \<open>
  Claim C4, as the code has it. Namespace resolution reads the namespace map of the root
  element and nothing else. It returns the known namespace with the highest version label among
  those bound at the root: the 3.0 namespace whenever it is bound there (also when both are),
  else the 2.0 namespace when it is bound there. When neither is bound at the root it fails with
  a \<open>ValueError\<close> whose message contains every known namespace URI and every namespace URI
  bound at the root.
\<close>

theorem get_namespace_highest_version:
  "(''http://docs.oasis-open.org/legaldocml/ns/akn/3.0'' \<in> snd ` set (nsmap rt) \<longrightarrow>
      get_namespace rt = Inr ''http://docs.oasis-open.org/legaldocml/ns/akn/3.0'') \<and>
   (''http://docs.oasis-open.org/legaldocml/ns/akn/3.0'' \<notin> snd ` set (nsmap rt) \<and>
    ''http://www.akomantoso.org/2.0'' \<in> snd ` set (nsmap rt) \<longrightarrow>
      get_namespace rt = Inr ''http://www.akomantoso.org/2.0'') \<and>
   (''http://docs.oasis-open.org/legaldocml/ns/akn/3.0'' \<notin> snd ` set (nsmap rt) \<and>
    ''http://www.akomantoso.org/2.0'' \<notin> snd ` set (nsmap rt) \<longrightarrow>
      (\<exists>msg. get_namespace rt = Inl (ValueError msg) \<and>
             (\<forall>u \<in> snd ` set AKN_NAMESPACES \<union> snd ` set (nsmap rt). sublist u msg)))"
proof (intro conjI impI)
  assume "''http://docs.oasis-open.org/legaldocml/ns/akn/3.0'' \<in> snd ` set (nsmap rt)"
  then show "get_namespace rt = Inr ''http://docs.oasis-open.org/legaldocml/ns/akn/3.0''"
    by (simp add: get_namespace_def akn_namespaces_eval)
next
  assume "''http://docs.oasis-open.org/legaldocml/ns/akn/3.0'' \<notin> snd ` set (nsmap rt) \<and>
    ''http://www.akomantoso.org/2.0'' \<in> snd ` set (nsmap rt)"
  then show "get_namespace rt = Inr ''http://www.akomantoso.org/2.0''"
    by (simp add: get_namespace_def akn_namespaces_eval)
next
  assume none: "''http://docs.oasis-open.org/legaldocml/ns/akn/3.0'' \<notin> snd ` set (nsmap rt) \<and>
    ''http://www.akomantoso.org/2.0'' \<notin> snd ` set (nsmap rt)"
  then have "List.find (\<lambda>ns. ns \<in> snd ` set (nsmap rt)) akn_namespaces = None"
    by (simp add: akn_namespaces_eval)
  then obtain a b where msg: "get_namespace rt =
      Inl (ValueError (a @ join '', '' akn_namespaces @ b @ join '', '' (map snd (nsmap rt))))"
    using get_namespace_none by blast
  have "sublist u (a @ join '', '' akn_namespaces @ b @ join '', '' (map snd (nsmap rt)))"
    if "u \<in> snd ` set AKN_NAMESPACES \<union> snd ` set (nsmap rt)" for u
  proof -
    from that have "u \<in> set akn_namespaces \<or> u \<in> set (map snd (nsmap rt))"
      by (simp add: set_akn_namespaces)
    then show ?thesis
    proof
      assume "u \<in> set akn_namespaces"
      then have "sublist u (join '', '' akn_namespaces)" by (rule sublist_join)
      then show ?thesis by (rule sublist_mid)
    next
      assume "u \<in> set (map snd (nsmap rt))"
      then have "sublist u (join '', '' (map snd (nsmap rt)))" by (rule sublist_join)
      then have "sublist u ((a @ join '', '' akn_namespaces @ b) @ join '', '' (map snd (nsmap rt)) @ [])"
        by (rule sublist_mid)
      then show ?thesis by simp
    qed
  qed
  with msg show "\<exists>msg. get_namespace rt = Inl (ValueError msg) \<and>
             (\<forall>u \<in> snd ` set AKN_NAMESPACES \<union> snd ` set (nsmap rt). sublist u msg)"
    by blast
qed



theorem get_namespace_highest_version_witness:
  "get_namespace (Element ''{http://www.akomantoso.org/2.0}akomaNtoso''
       [(None, ''http://www.akomantoso.org/2.0''),
        (Some ''akn'', ''http://docs.oasis-open.org/legaldocml/ns/akn/3.0'')] [] [])
     = Inr ''http://docs.oasis-open.org/legaldocml/ns/akn/3.0'' \<and>
   get_namespace (Element ''{http://www.akomantoso.org/2.0}akomaNtoso''
       [(None, ''http://www.akomantoso.org/2.0'')] [] [])
     = Inr ''http://www.akomantoso.org/2.0'' \<and>
   (\<exists>msg. get_namespace (Element ''{urn:x}akomaNtoso'' [(None, ''urn:x'')] [] []) = Inl (ValueError msg) \<and>
      sublist ''urn:x'' msg \<and> sublist ''http://www.akomantoso.org/2.0'' msg \<and>
      sublist ''http://docs.oasis-open.org/legaldocml/ns/akn/3.0'' msg)"
proof -
  let ?both = "Element ''{http://www.akomantoso.org/2.0}akomaNtoso''
       [(None, ''http://www.akomantoso.org/2.0''),
        (Some ''akn'', ''http://docs.oasis-open.org/legaldocml/ns/akn/3.0'')] [] []"
  let ?two = "Element ''{http://www.akomantoso.org/2.0}akomaNtoso''
       [(None, ''http://www.akomantoso.org/2.0'')] [] []"
  let ?none = "Element ''{urn:x}akomaNtoso'' [(None, ''urn:x'')] [] []"
  have a: "get_namespace ?both = Inr ''http://docs.oasis-open.org/legaldocml/ns/akn/3.0''"
    by (rule get_namespace_highest_version [THEN conjunct1, rule_format]) simp
  have b: "get_namespace ?two = Inr ''http://www.akomantoso.org/2.0''"
    by (rule get_namespace_highest_version [THEN conjunct2, THEN conjunct1, rule_format]) simp
  have h: "''http://docs.oasis-open.org/legaldocml/ns/akn/3.0'' \<notin> snd ` set (nsmap ?none) \<and>
        ''http://www.akomantoso.org/2.0'' \<notin> snd ` set (nsmap ?none)"
    by simp
  note c = get_namespace_highest_version [THEN conjunct2, THEN conjunct2, rule_format, OF h]
  from c obtain msg where m: "get_namespace ?none = Inl (ValueError msg)"
      and all: "\<And>u. u \<in> snd ` set AKN_NAMESPACES \<union> snd ` set (nsmap ?none) \<Longrightarrow> sublist u msg"
    by (elim exE conjE) (rule that, assumption, erule (1) bspec)
  have "sublist ''urn:x'' msg"
    by (rule all) simp
  moreover have "sublist ''http://www.akomantoso.org/2.0'' msg"
    by (rule all) (simp add: AKN_NAMESPACES_def)
  moreover have "sublist ''http://docs.oasis-open.org/legaldocml/ns/akn/3.0'' msg"
    by (rule all) (simp add: AKN_NAMESPACES_def)
  ultimately show ?thesis
    using a b m by (intro conjI exI [of _ msg])
qed

text \<open>
  Claim C4 as stated, for the namespaces declared in the tree, fails. A document whose root binds
  the 2.0 namespace and whose first child also binds the 3.0 namespace passes validation and
  resolves to the 2.0 namespace, although the 3.0 namespace is declared in the tree. A document
  whose only known namespace is bound at a child is rejected, and the message names the
  namespace found at the root only.
\<close>

theorem get_namespace_ignores_descendants_counterexample:
  "StructuredDocument_parse ''act''
     (Element ''akomaNtoso'' [(None, ''http://www.akomantoso.org/2.0'')] []
        [Element ''act'' [(Some ''n'', ''http://docs.oasis-open.org/legaldocml/ns/akn/3.0'')] [] []])
     = Inr (Element ''{http://www.akomantoso.org/2.0}akomaNtoso''
              [(None, ''http://www.akomantoso.org/2.0'')] []
              [Element ''{http://www.akomantoso.org/2.0}act''
                 [(Some ''n'', ''http://docs.oasis-open.org/legaldocml/ns/akn/3.0'')] [] []]) \<and>
   ''http://docs.oasis-open.org/legaldocml/ns/akn/3.0'' \<in> set (tree_namespaces
      (Element ''{http://www.akomantoso.org/2.0}akomaNtoso''
              [(None, ''http://www.akomantoso.org/2.0'')] []
              [Element ''{http://www.akomantoso.org/2.0}act''
                 [(Some ''n'', ''http://docs.oasis-open.org/legaldocml/ns/akn/3.0'')] [] []])) \<and>
   get_namespace
      (Element ''{http://www.akomantoso.org/2.0}akomaNtoso''
              [(None, ''http://www.akomantoso.org/2.0'')] []
              [Element ''{http://www.akomantoso.org/2.0}act''
                 [(Some ''n'', ''http://docs.oasis-open.org/legaldocml/ns/akn/3.0'')] [] []])
     = Inr ''http://www.akomantoso.org/2.0'' \<and>
   ''http://docs.oasis-open.org/legaldocml/ns/akn/3.0'' \<in> set (tree_namespaces
      (Element ''{urn:x}akomaNtoso'' [(None, ''urn:x'')] []
         [Element ''{http://docs.oasis-open.org/legaldocml/ns/akn/3.0}act''
            [(Some ''n'', ''http://docs.oasis-open.org/legaldocml/ns/akn/3.0'')] [] []])) \<and>
   get_namespace
      (Element ''{urn:x}akomaNtoso'' [(None, ''urn:x'')] []
         [Element ''{http://docs.oasis-open.org/legaldocml/ns/akn/3.0}act''
            [(Some ''n'', ''http://docs.oasis-open.org/legaldocml/ns/akn/3.0'')] [] []])
     = Inl (ValueError (''Expected to find one of the following Akoma Ntoso XML namespaces: '' @
              ''http://docs.oasis-open.org/legaldocml/ns/akn/3.0, http://www.akomantoso.org/2.0'' @
              ''. Only these namespaces were found: urn:x''))"
  by code_simp

section \<open>Validation on parsing\<close>

text \<open>
  Claim C5. A document whose root element is in no namespace: the root's local name is
  \<open>akomaNtoso\<close>, it has a child, and the child's local name is the document type, yet
  parsing neither returns the root nor fails with a \<open>ValueError\<close>: taking the part of the tag
  after the closing brace raises \<open>IndexError\<close>.
\<close>

theorem parse_unqualified_root_IndexError:
  "StructuredDocument_parse ''act'' (Element ''akomaNtoso'' [] [] [Element ''act'' [] [] []])
     = Inl IndexError"
  by (simp add: StructuredDocument_parse_def AkomaNtosoDocument_parse_def fromstring_def
      split1_second_def bindE_def)

section \<open>Dates\<close>

lemma digit_literals:
  "digit 0 = CHR ''0''" "digit 1 = CHR ''1''" "digit 2 = CHR ''2''" "digit 3 = CHR ''3''"
  "digit 4 = CHR ''4''" "digit 5 = CHR ''5''" "digit 6 = CHR ''6''" "digit 7 = CHR ''7''"
  "digit 8 = CHR ''8''" "digit 9 = CHR ''9''"
  by (simp_all add: digit_def)

lemma digit_mod: "digit (n mod 10) = digit n"
  by (simp add: digit_def)

lemma dec_lt_10: "n < 10 \<Longrightarrow> dec n = [digit n]"
  by (simp add: dec.simps)

lemma dec_ge_10: "10 \<le> n \<Longrightarrow> dec n = dec (n div 10) @ [digit n]"
  by (subst dec.simps) (simp add: digit_mod)

lemma dec_lt_100: "10 \<le> n \<Longrightarrow> n < 100 \<Longrightarrow> dec n = [digit (n div 10), digit n]"
  by (simp add: dec_ge_10 dec_lt_10)

lemma dec_lt_1000:
  assumes "100 \<le> n" "n < 1000"
  shows "dec n = [digit (n div 100), digit (n div 10), digit n]"
proof -
  have "10 \<le> n div 10" "n div 10 < 100" "n div 10 div 10 = n div 100"
    using assms by (simp_all add: div_mult2_eq [symmetric])
  then show ?thesis
    using assms by (simp add: dec_ge_10 [of n] dec_lt_100)
qed

lemma dec_lt_10000:
  assumes "1000 \<le> n" "n < 10000"
  shows "dec n = [digit (n div 1000), digit (n div 100), digit (n div 10), digit n]"
proof -
  have "100 \<le> n div 10" "n div 10 < 1000" "n div 10 div 10 = n div 100"
       "n div 10 div 100 = n div 1000"
    using assms by (simp_all add: div_mult2_eq [symmetric])
  then show ?thesis
    using assms by (simp add: dec_ge_10 [of n] dec_lt_1000)
qed

lemma replicate_small:
  "replicate 1 x = [x]" "replicate 2 x = [x, x]" "replicate 3 x = [x, x, x]"
  by (simp_all add: numeral_2_eq_2 numeral_3_eq_3)

lemma digit_div_zero: "n < m \<Longrightarrow> digit (n div m) = CHR ''0''"
  by (simp add: digit_def)

lemma zero_pad_2: "n < 100 \<Longrightarrow> zero_pad 2 (dec n) = [digit (n div 10), digit n]"
  by (cases "n < 10")
     (simp_all add: zero_pad_def dec_lt_10 dec_lt_100 digit_literals replicate_small)

lemma zero_pad_4:
  "n < 10000 \<Longrightarrow>
     zero_pad 4 (dec n) = [digit (n div 1000), digit (n div 100), digit (n div 10), digit n]"
proof -
  assume n: "n < 10000"
  consider "n < 10" | "10 \<le> n" "n < 100" | "100 \<le> n" "n < 1000" | "1000 \<le> n"
    by linarith
  then show ?thesis
  proof cases
    case 1
    then show ?thesis
      by (simp add: zero_pad_def dec_lt_10 digit_div_zero replicate_small digit_literals)
  next
    case 2
    then show ?thesis
      by (simp add: zero_pad_def dec_lt_100 digit_div_zero replicate_small digit_literals)
  next
    case 3
    then show ?thesis
      by (simp add: zero_pad_def dec_lt_1000 digit_div_zero replicate_small digit_literals)
  next
    case 4
    then show ?thesis using n
      by (simp add: zero_pad_def dec_lt_10000)
  qed
qed

lemma datestring_date:
  "year d < 10000 \<Longrightarrow> month d < 100 \<Longrightarrow> day d < 100 \<Longrightarrow>
   datestring (DDate d) =
     [digit (year d div 1000), digit (year d div 100), digit (year d div 10), digit (year d),
      CHR ''-'', digit (month d div 10), digit (month d),
      CHR ''-'', digit (day d div 10), digit (day d)]"
  by (simp add: zero_pad_2 zero_pad_4)

lemma root_set_at [simp]: "root (set_at q k v doc) = upd_at q (attr_set k v) (root doc)"
  and document_type_set_at [simp]: "document_type (set_at q k v doc) = document_type doc"
  and main_content_tag_set_at [simp]: "main_content_tag (set_at q k v doc) = main_content_tag doc"
  and namespace_set_at [simp]: "namespace (set_at q k v doc) = namespace doc"
  and maker_nsmap_set_at [simp]: "maker_nsmap (set_at q k v doc) = maker_nsmap doc"
  by (simp_all add: set_at_def)

lemma main_set_at [simp]: "main (set_at q k v doc) = main doc"
  by (simp add: main_def objectify_getattr_upd_at)

lemma meta_set_at [simp]: "meta (set_at q k v doc) = meta doc"
  by (simp add: meta_def objectify_getattr_upd_at)

lemma meta_chain_set_at [simp]: "meta_chain (set_at q k v doc) names = meta_chain doc names"
  by (simp add: meta_chain_def getattr_chain_upd_at)

lemma objectify_getattr_valid:
  "objectify_getattr t p n = Inr q \<Longrightarrow> get_at t q \<noteq> None"
  by (auto simp: objectify_getattr_def get_at_append split: option.splits dest: first_index_SomeD)

lemma getattr_chain_valid:
  "getattr_chain t p ns = Inr q \<Longrightarrow> get_at t p \<noteq> None \<Longrightarrow> get_at t q \<noteq> None"
  by (induction ns arbitrary: p) (auto simp: bindE_eq_Inr dest: objectify_getattr_valid)

lemma meta_valid: "meta doc = Inr m \<Longrightarrow> get_at (root doc) m \<noteq> None"
  by (auto simp: meta_def bindE_eq_Inr dest: objectify_getattr_valid)

lemma meta_chain_valid:
  "meta_chain doc ns = Inr q \<Longrightarrow> get_at (root doc) q \<noteq> None"
  by (auto simp: meta_chain_def bindE_eq_Inr dest!: meta_valid getattr_chain_valid)

lemma date_setter_stores:
  assumes "meta_chain doc ns = Inr q"
  shows "meta_chain (set_at q k v doc) ns = Inr q \<and>
         attr_at (root (set_at q k v doc)) q k = Some v"
  using assms meta_chain_valid [OF assms]
  by (simp add: attr_at_upd_at_set)

section \<open>Dotted-path lookup\<close>

lemma objectify_getattr_Inl:
  "objectify_getattr t p n = Inl e \<Longrightarrow> \<exists>m. e = AttributeError m"
  by (auto simp: objectify_getattr_def split: option.splits)

lemma objectify_getattr_named_child:
  assumes "get_at t p = Some e"
  shows "case objectify_getattr t p n of
           Inr q \<Rightarrow> named_child e n \<noteq> None \<and> get_at t q = named_child e n
         | Inl x \<Rightarrow> named_child e n = None"
  using assms
  by (auto simp: objectify_getattr_def named_child_def first_index_find get_at_append
           split: option.splits dest: first_index_SomeD)

lemma child_name_not_attribute:
  "child_name n \<Longrightarrow> n \<noteq> ''tag'' \<and> n \<notin> set element_attributes"
  by (auto simp: child_name_def element_attributes_def)

lemma element_getattr_child:
  "child_name n \<Longrightarrow>
   element_getattr t p n = bindE (objectify_getattr t p n) (\<lambda>q. Inr (Node q))"
  using child_name_not_attribute [of n] by (simp add: element_getattr_def)

lemma get_element_loop_node:
  assumes "get_at (root doc) p = Some e" and "list_all child_name parts"
  shows "case follow e parts of
           None \<Rightarrow> get_element_loop doc (Node p) parts = Inr None
         | Some x \<Rightarrow> \<exists>q. get_element_loop doc (Node p) parts = Inr (Some (Node q)) \<and>
                        get_at (root doc) q = Some x"
  using assms
proof (induction parts arbitrary: p e)
  case Nil
  then show ?case by simp
next
  case (Cons n parts)
  from Cons.prems(2) have n: "child_name n" and ps: "list_all child_name parts"
    by simp_all
  show ?case
  proof (cases "objectify_getattr (root doc) p n")
    case (Inl x)
    then obtain m where "x = AttributeError m"
      using objectify_getattr_Inl by blast
    moreover have "named_child e n = None"
      using objectify_getattr_named_child [OF Cons.prems(1), of n] Inl by simp
    ultimately show ?thesis using Inl
      by (simp add: getattr_node_def element_getattr_child [OF n])
  next
    case (Inr q)
    then obtain c where c: "named_child e n = Some c" "get_at (root doc) q = Some c"
      using objectify_getattr_named_child [OF Cons.prems(1), of n] by auto
    show ?thesis
      using Cons.IH [OF c(2) ps] c(1) Inr
      by (simp add: getattr_node_def element_getattr_child [OF n] cong: option.case_cong)
  qed
qed

lemma get_element_loop_never_raises:
  assumes "list_all child_name parts"
  shows "\<exists>r. get_element_loop doc (Node p) parts = Inr r"
  using assms
proof (induction parts arbitrary: p)
  case Nil
  then show ?case by simp
next
  case (Cons n parts)
  from Cons.prems have n: "child_name n" and ps: "list_all child_name parts"
    by simp_all
  show ?case
  proof (cases "objectify_getattr (root doc) p n")
    case (Inl x)
    then obtain m where "x = AttributeError m"
      using objectify_getattr_Inl by blast
    then show ?thesis using Inl by (simp add: getattr_node_def element_getattr_child [OF n])
  next
    case (Inr q)
    then show ?thesis
      using Cons.IH [OF ps, of q] by (simp add: getattr_node_def element_getattr_child [OF n])
  qed
qed

lemma get_element_wrapper_missing:
  assumes "split_on (CHR ''.'') name = f # rest"
    and "wrapper_getattr doc f = Inl (AttributeError m)"
  shows "get_element doc name None = Inr None"
  using assms by (simp add: get_element_def getattr_node_def)

lemma get_element_wrapper_node:
  assumes "split_on (CHR ''.'') name = f # rest"
    and "wrapper_getattr doc f = Inr (Node p)"
  shows "get_element doc name None = get_element_loop doc (Node p) rest"
  using assms by (simp add: get_element_def getattr_node_def)




section \<open>The empty document\<close>

lemma dropWhile_not_mem: "c \<notin> set a \<Longrightarrow> dropWhile (\<lambda>x. x \<noteq> c) (a @ c # b) = c # b"
  by (induction a) auto

lemma takeWhile_not_mem: "c \<notin> set a \<Longrightarrow> takeWhile (\<lambda>x. x \<noteq> c) (a @ c # b) = a"
  by (induction a) auto

lemma split1_second_after:
  "c \<notin> set a \<Longrightarrow> split1_second c (a @ c # b) = Inr b"
  by (simp add: split1_second_def dropWhile_not_mem)

lemma plain_name_case:
  "plain_name s \<Longrightarrow> (case s of CHR ''{'' # x \<Rightarrow> f x | _ \<Rightarrow> g) = g"
  by (cases s) (auto simp: plain_name_def split: char.splits bool.splits)

lemma namespace_of_qualified:
  "CHR ''}'' \<notin> set ns \<Longrightarrow> namespace_of (''{'' @ ns @ ''}'' @ n) = Some ns"
  by (simp add: namespace_of_def takeWhile_not_mem)

lemma child_tag_qualified:
  "CHR ''}'' \<notin> set ns \<Longrightarrow> plain_name n \<Longrightarrow>
   child_tag (''{'' @ ns @ ''}'' @ p) n = ''{'' @ ns @ ''}'' @ n"
  using namespace_of_qualified [of ns p]
  by (simp add: child_tag_def plain_name_case)

lemma plain_name_literals [simp]:
  "plain_name ''meta''" "plain_name ''identification''" "plain_name ''FRBRWork''"
  "plain_name ''FRBRExpression''" "plain_name ''FRBRManifestation''" "plain_name ''FRBRuri''"
  "plain_name ''FRBRthis''" "plain_name ''FRBRalias''" "plain_name ''FRBRdate''"
  "plain_name ''FRBRcountry''" "plain_name ''FRBRnumber''" "plain_name ''FRBRsubtype''"
  "plain_name ''FRBRlanguage''" "plain_name ''lifecycle''" "plain_name ''references''"
  "plain_name ''publication''" "plain_name ''akomaNtoso''"
  by (simp_all add: plain_name_def)

lemma empty_document_tree:
  assumes v: "map_of AKN_NAMESPACES version = Some ns" and dt: "plain_name dt" and ct: "plain_name ct"
  shows "\<exists>xml a1 a2 ident refs. empty_document api dt ct version = Inr xml \<and>
     fromstring xml =
       Element (''{'' @ ns @ ''}akomaNtoso'') [(None, ns)] []
         [Element (''{'' @ ns @ ''}'' @ dt) [(None, ns)] a1
            [Element (''{'' @ ns @ ''}meta'') [(None, ns)] a2 [ident, refs],
             Element (''{'' @ ns @ ''}'' @ ct) [(None, ns)] [] []]] \<and>
     tag ident = ''{'' @ ns @ ''}identification'' \<and>
     (\<exists>a3 a4 w1 w2 w4 w5 w6 w7 e m.
        children ident = [Element (''{'' @ ns @ ''}FRBRWork'') a3 a4
          [w1, w2, Element (''{'' @ ns @ ''}FRBRalias'') [(None, ns)]
                     [(''value'', ''Untitled''), (''name'', ''title'')] [], w4, w5, w6, w7], e, m] \<and>
        tag w1 = ''{'' @ ns @ ''}FRBRthis'' \<and> tag w2 = ''{'' @ ns @ ''}FRBRuri'' \<and>
        tag w4 = ''{'' @ ns @ ''}FRBRdate'' \<and> tag w5 = ''{'' @ ns @ ''}FRBRauthor'' \<and>
        tag w6 = ''{'' @ ns @ ''}FRBRcountry'' \<and> tag w7 = ''{'' @ ns @ ''}FRBRnumber'')"
  using assms
  by (simp add: empty_document_def Let_def fromstring_def plain_name_case)


lemma AKN_version_cases:
  "version = ''2.0'' \<or> version = ''3.0'' \<Longrightarrow>
   \<exists>ns. map_of AKN_NAMESPACES version = Some ns \<and> CHR ''}'' \<notin> set ns \<and>
        (\<forall>t a c. get_namespace (Element t [(None, ns)] a c) = Inr ns)"
  by (auto simp: AKN_NAMESPACES_def get_namespace_def akn_namespaces_eval)

lemma empty_document_constructs_aux:
  assumes v: "map_of AKN_NAMESPACES version = Some ns" and ns: "CHR ''}'' \<notin> set ns"
    and gn: "\<And>t a c. get_namespace (Element t [(None, ns)] a c) = Inr ns"
    and dt: "plain_name dt" and ct: "plain_name ct" and cm: "ct \<noteq> ''meta''"
  shows "\<exists>xml doc q e. empty_document api dt ct version = Inr xml \<and>
           StructuredDocument_parse dt xml = Inr (root doc) \<and>
           StructuredDocument_init api dt ct (Some xml) = Inr doc \<and>
           map_of AKN_NAMESPACES version = Some (namespace doc) \<and>
           title_getter doc = Inr (Some ''Untitled'') \<and>
           main_content doc = Inr q \<and> get_at (root doc) q = Some e \<and> children e = []"
proof -
  obtain xml a1 a2 ident refs where x: "empty_document api dt ct version = Inr xml"
    and t: "fromstring xml =
       Element (''{'' @ ns @ ''}akomaNtoso'') [(None, ns)] []
         [Element (''{'' @ ns @ ''}'' @ dt) [(None, ns)] a1
            [Element (''{'' @ ns @ ''}meta'') [(None, ns)] a2 [ident, refs],
             Element (''{'' @ ns @ ''}'' @ ct) [(None, ns)] [] []]]"
    and ti: "tag ident = ''{'' @ ns @ ''}identification''"
    and ci: "\<exists>a3 a4 w1 w2 w4 w5 w6 w7 e m.
        children ident = [Element (''{'' @ ns @ ''}FRBRWork'') a3 a4
          [w1, w2, Element (''{'' @ ns @ ''}FRBRalias'') [(None, ns)]
                     [(''value'', ''Untitled''), (''name'', ''title'')] [], w4, w5, w6, w7], e, m] \<and>
        tag w1 = ''{'' @ ns @ ''}FRBRthis'' \<and> tag w2 = ''{'' @ ns @ ''}FRBRuri'' \<and>
        tag w4 = ''{'' @ ns @ ''}FRBRdate'' \<and> tag w5 = ''{'' @ ns @ ''}FRBRauthor'' \<and>
        tag w6 = ''{'' @ ns @ ''}FRBRcountry'' \<and> tag w7 = ''{'' @ ns @ ''}FRBRnumber''"
    using empty_document_tree [OF v dt ct, of api] by blast
  let ?rt = "Element (''{'' @ ns @ ''}akomaNtoso'') [(None, ns)] []
         [Element (''{'' @ ns @ ''}'' @ dt) [(None, ns)] a1
            [Element (''{'' @ ns @ ''}meta'') [(None, ns)] a2 [ident, refs],
             Element (''{'' @ ns @ ''}'' @ ct) [(None, ns)] [] []]]"
  let ?doc = "\<lparr>root = ?rt, namespace = ns, maker_nsmap = [(None, ns)],
                document_type = dt, main_content_tag = ct\<rparr>"
  have s1: "split1_second (CHR ''}'') (''{'' @ ns @ ''}'' @ n) = Inr n" for n
    using split1_second_after [of "CHR ''}''" "''{'' @ ns" n] ns by simp
  have p: "StructuredDocument_parse dt xml = Inr ?rt"
    using s1 [of "''akomaNtoso''"] s1 [of dt]
    by (simp add: StructuredDocument_parse_def AkomaNtosoDocument_parse_def Let_def t)
  have ctag: "child_tag (CHR ''{'' # ns @ CHR ''}'' # p) n = CHR ''{'' # ns @ CHR ''}'' # n"
    if "plain_name n" for p n
    using child_tag_qualified [OF ns that] by simp
  have m: "main ?doc = Inr [0]"
    by (simp add: main_def objectify_getattr_def ctag dt)
  have mc: "main_content ?doc = Inr [0, 1]"
    using cm by (simp add: main_content_def m [simplified] objectify_getattr_def ctag ct)
  have me: "meta ?doc = Inr [0, 0]"
    by (simp add: meta_def m [simplified] objectify_getattr_def ctag)
  have i: "StructuredDocument_init api dt ct (Some xml) = Inr ?doc"
    using gn by (simp add: StructuredDocument_init_def p m [simplified] mc [simplified] Let_def)
  have ti': "title_getter ?doc = Inr (Some ''Untitled'')"
    using ti ci
    by (auto simp add: title_getter_def meta_chain_def me [simplified] objectify_getattr_def ctag
        elem_at_def attr_get_def)
  show ?thesis
    apply (rule exI [of _ xml])
    apply (rule exI [of _ ?doc])
    apply (rule exI [of _ "[0, 1]"])
    apply (rule exI [of _ "Element (''{'' @ ns @ ''}'' @ ct) [(None, ns)] [] []"])
    using x p i ti' mc v apply simp
    done
qed

text \<open>
  Claim C3. For both supported versions, and for a class whose document type and main content
  tag are plain element names (the content tag not being \<open>meta\<close>), the empty document passes the
  validation of \<open>parse\<close> and the namespace resolution, the constructor succeeds on it, the
  title of the resulting document is \<open>Untitled\<close>, and its main content element has no
  children.
\<close>

theorem empty_document_constructs:
  assumes "version = ''2.0'' \<or> version = ''3.0''"
    and "plain_name dt" and "plain_name ct" and "ct \<noteq> ''meta''"
  shows "\<exists>xml doc q e. empty_document api dt ct version = Inr xml \<and>
           StructuredDocument_parse dt xml = Inr (root doc) \<and>
           StructuredDocument_init api dt ct (Some xml) = Inr doc \<and>
           map_of AKN_NAMESPACES version = Some (namespace doc) \<and>
           title_getter doc = Inr (Some ''Untitled'') \<and>
           main_content doc = Inr q \<and> get_at (root doc) q = Some e \<and> children e = []"
proof -
  obtain ns where "map_of AKN_NAMESPACES version = Some ns" "CHR ''}'' \<notin> set ns"
    "\<And>t a c. get_namespace (Element t [(None, ns)] a c) = Inr ns"
    using AKN_version_cases [OF assms(1)] by blast
  then show ?thesis
    using assms(2-4) by (rule empty_document_constructs_aux)
qed

theorem empty_document_constructs_witness:
  "\<exists>xml doc q e. empty_document sample_api ''collection'' ''collectionBody'' ''3.0'' = Inr xml \<and>
     StructuredDocument_parse ''collection'' xml = Inr (root doc) \<and>
     StructuredDocument_init sample_api ''collection'' ''collectionBody'' (Some xml) = Inr doc \<and>
     map_of AKN_NAMESPACES ''3.0'' = Some (namespace doc) \<and>
     title_getter doc = Inr (Some ''Untitled'') \<and>
     main_content doc = Inr q \<and> get_at (root doc) q = Some e \<and> children e = []"
  by (rule empty_document_constructs) (simp_all add: plain_name_def)

section \<open>The title setter\<close>

lemma bindE_return [simp]: "bindE m Inr = m"
  by (cases m) simp_all

lemma getattr_chain_Inl:
  "getattr_chain t p ns = Inl e \<Longrightarrow> \<exists>m. e = AttributeError m"
proof (induction ns arbitrary: p)
  case Nil
  then show ?case by simp
next
  case (Cons n ns)
  then show ?case
    by (cases "objectify_getattr t p n") (auto dest: objectify_getattr_Inl)
qed

lemma getattr_chain_append:
  "getattr_chain t p (ns1 @ ns2) = bindE (getattr_chain t p ns1) (\<lambda>q. getattr_chain t q ns2)"
proof (induction ns1 arbitrary: p)
  case Nil
  then show ?case by simp
next
  case (Cons n ns1)
  then show ?case by (cases "objectify_getattr t p n") simp_all
qed

lemma main_Inl: "main doc = Inl e \<Longrightarrow> \<exists>m. e = AttributeError m"
  by (auto simp: main_def dest: objectify_getattr_Inl)

lemma meta_Inl: "meta doc = Inl e \<Longrightarrow> \<exists>m. e = AttributeError m"
  by (cases "main doc") (auto simp: meta_def dest: objectify_getattr_Inl main_Inl)

lemma meta_chain_Inl: "meta_chain doc ns = Inl e \<Longrightarrow> \<exists>m. e = AttributeError m"
  by (cases "meta doc") (auto simp: meta_chain_def dest: meta_Inl getattr_chain_Inl)

lemma get_element_loop_chain:
  assumes "list_all child_name names"
  shows "get_element_loop doc (Node p) names =
     (case getattr_chain (root doc) p names of Inr q \<Rightarrow> Inr (Some (Node q)) | Inl e \<Rightarrow> Inr None)"
  using assms
proof (induction names arbitrary: p)
  case Nil
  then show ?case by simp
next
  case (Cons n names)
  from Cons.prems have n: "child_name n" and ps: "list_all child_name names"
    by simp_all
  show ?case
  proof (cases "objectify_getattr (root doc) p n")
    case (Inl x)
    then show ?thesis
      using objectify_getattr_Inl [OF Inl]
      by (auto simp: getattr_node_def element_getattr_child [OF n])
  next
    case (Inr q)
    then show ?thesis
      using Cons.IH [OF ps, of q] by (simp add: getattr_node_def element_getattr_child [OF n])
  qed
qed

lemma get_element_self_meta:
  assumes "list_all child_name names"
  shows "get_element_loop doc Self (''meta'' # names) =
     (case meta_chain doc names of Inr q \<Rightarrow> Inr (Some (Node q)) | Inl e \<Rightarrow> Inr None)"
proof (cases "meta doc")
  case (Inl x)
  then show ?thesis
    using meta_Inl [OF Inl]
    by (auto simp: getattr_node_def wrapper_getattr_def meta_chain_def)
next
  case (Inr m)
  then show ?thesis
    by (simp add: getattr_node_def wrapper_getattr_def meta_chain_def
        get_element_loop_chain [OF assms])
qed

lemma child_name_literals [simp]:
  "child_name ''identification''" "child_name ''FRBRWork''" "child_name ''FRBRalias''"
  "child_name ''lifecycle''" "child_name ''references''"
  by code_simp+

lemma split_meta_alias:
  "split_on (CHR ''.'') ''meta.identification.FRBRWork.FRBRalias'' =
     [''meta'', ''identification'', ''FRBRWork'', ''FRBRalias'']"
  by code_simp

lemma meta_chain_snoc:
  assumes "meta_chain doc ns = Inr w" and "get_at (root doc) w = Some e"
  shows "meta_chain doc (ns @ [n]) =
     (case first_index (\<lambda>c. tag c = child_tag (tag e) n) (children e) of
        None \<Rightarrow> Inl (AttributeError (''no such child: '' @ child_tag (tag e) n))
      | Some i \<Rightarrow> Inr (w @ [i]))"
proof -
  obtain m where m: "meta doc = Inr m" and c: "getattr_chain (root doc) m ns = Inr w"
    using assms(1) by (auto simp: meta_chain_def bindE_eq_Inr)
  show ?thesis
    by (simp add: meta_chain_def m getattr_chain_append c objectify_getattr_def assms(2))
qed

lemma upd_at_const: "get_at t p = Some e \<Longrightarrow> upd_at p f t = upd_at p (\<lambda>_. f e) t"
  by (induction p arbitrary: t) (auto split: if_splits)

lemma upd_at_upd_at_below:
  "upd_at (p @ q) f (upd_at p g t) = upd_at p (\<lambda>e. upd_at q f (g e)) t"
  by (induction p arbitrary: t) auto

lemma upd_at_child:
  "j < length (children e) \<Longrightarrow>
   upd_at [j] f e = set_children ((children e)[j := f (children e ! j)]) e"
  by (simp add: set_children_def)


lemma title_setter_existing:
  assumes w: "meta_chain doc [''identification'', ''FRBRWork''] = Inr w"
    and we: "get_at (root doc) w = Some work"
    and j: "first_index (\<lambda>c. tag c = ''{'' @ namespace doc @ ''}FRBRalias'' \<and>
                              attr_get c ''name'' = Some ''title'') (children work) = Some j"
  shows "title_setter doc v =
     Inr (doc\<lparr>root := upd_at w (set_children
            ((children work)[j := attr_set ''value'' v (children work ! j)])) (root doc)\<rparr>)"
proof -
  have jl: "j < length (children work)"
    using first_index_SomeD [OF j] by simp
  have "upd_at (w @ [j]) (attr_set ''value'' v) (root doc) =
        upd_at w (upd_at [j] (attr_set ''value'' v)) (root doc)"
    by (rule upd_at_append)
  also have "\<dots> = upd_at w (\<lambda>_. upd_at [j] (attr_set ''value'' v) work) (root doc)"
    by (rule upd_at_const [OF we])
  also have "\<dots> = upd_at w (\<lambda>_. set_children
            ((children work)[j := attr_set ''value'' v (children work ! j)]) work) (root doc)"
    by (simp only: upd_at_child [OF jl])
  also have "\<dots> = upd_at w (set_children
            ((children work)[j := attr_set ''value'' v (children work ! j)])) (root doc)"
    by (rule upd_at_const [OF we, symmetric])
  finally show ?thesis
    using j by (simp add: title_setter_def w elem_at_def we set_at_def)
qed

lemma title_setter_adopts:
  assumes w: "meta_chain doc [''identification'', ''FRBRWork''] = Inr w"
    and we: "get_at (root doc) w = Some work"
    and n: "first_index (\<lambda>c. tag c = ''{'' @ namespace doc @ ''}FRBRalias'' \<and>
                              attr_get c ''name'' = Some ''title'') (children work) = None"
    and u: "first_index (\<lambda>c. tag c = child_tag (tag work) ''FRBRuri'') (children work) = Some u"
    and a: "first_index (\<lambda>c. tag c = child_tag (tag work) ''FRBRalias'') (children work) = Some a"
  shows "title_setter doc v =
     Inr (doc\<lparr>root := upd_at w (set_children
            ((children work)[a := attr_set ''value'' v
                                    (attr_set ''name'' ''title'' (children work ! a))])) (root doc)\<rparr>)"
proof -
  have al: "a < length (children work)"
    using first_index_SomeD [OF a] by simp
  have cu: "meta_chain doc [''identification'', ''FRBRWork'', ''FRBRuri''] = Inr (w @ [u])"
    using meta_chain_snoc [OF w we, of "''FRBRuri''"] u by simp
  have ca: "meta_chain doc [''identification'', ''FRBRWork'', ''FRBRalias''] = Inr (w @ [a])"
    using meta_chain_snoc [OF w we, of "''FRBRalias''"] a by simp
  have ge: "get_element doc ''meta.identification.FRBRWork.FRBRalias'' None =
              Inr (Some (Node (w @ [a])))"
    by (simp add: get_element_def split_meta_alias get_element_self_meta ca
        del: get_element_loop.simps)
  let ?f = "\<lambda>e. attr_set ''value'' v (attr_set ''name'' ''title'' e)"
  have "upd_at (w @ [a]) (attr_set ''value'' v) (upd_at (w @ [a]) (attr_set ''name'' ''title'') (root doc))
        = upd_at (w @ [a]) ?f (root doc)"
    using upd_at_upd_at_below [of "w @ [a]" "[]"] by simp
  also have "\<dots> = upd_at w (upd_at [a] ?f) (root doc)"
    by (rule upd_at_append)
  also have "\<dots> = upd_at w (\<lambda>_. upd_at [a] ?f work) (root doc)"
    by (rule upd_at_const [OF we])
  also have "\<dots> = upd_at w (\<lambda>_. set_children ((children work)[a := ?f (children work ! a)]) work)
                     (root doc)"
    by (simp only: upd_at_child [OF al])
  also have "\<dots> = upd_at w (set_children ((children work)[a := ?f (children work ! a)])) (root doc)"
    by (rule upd_at_const [OF we, symmetric])
  finally show ?thesis
    using n by (simp add: title_setter_def w elem_at_def we cu ensure_element_def ge node_path_def
        set_at_def)
qed

lemma title_setter_creates:
  assumes w: "meta_chain doc [''identification'', ''FRBRWork''] = Inr w"
    and we: "get_at (root doc) w = Some work"
    and n: "first_index (\<lambda>c. tag c = ''{'' @ namespace doc @ ''}FRBRalias'' \<and>
                              attr_get c ''name'' = Some ''title'') (children work) = None"
    and u: "first_index (\<lambda>c. tag c = child_tag (tag work) ''FRBRuri'') (children work) = Some u"
    and a: "first_index (\<lambda>c. tag c = child_tag (tag work) ''FRBRalias'') (children work) = None"
  shows "title_setter doc v =
     Inr (doc\<lparr>root := upd_at w (set_children
            (take (Suc u) (children work) @
             [Element (''{'' @ namespace doc @ ''}FRBRalias'') (maker_nsmap doc)
                [(''name'', ''title''), (''value'', v)] []] @
             drop (Suc u) (children work))) (root doc)\<rparr>)"
proof -
  have ul: "u < length (children work)"
    using first_index_SomeD [OF u] by simp
  have cu: "meta_chain doc [''identification'', ''FRBRWork'', ''FRBRuri''] = Inr (w @ [u])"
    using meta_chain_snoc [OF w we, of "''FRBRuri''"] u by simp
  have ca: "\<exists>m. meta_chain doc [''identification'', ''FRBRWork'', ''FRBRalias''] = Inl m"
    using meta_chain_snoc [OF w we, of "''FRBRalias''"] a by simp
  have ge: "get_element doc ''meta.identification.FRBRWork.FRBRalias'' None = Inr None"
    using ca by (auto simp add: get_element_def split_meta_alias get_element_self_meta
        simp del: get_element_loop.simps)
  have last: "last (split_on (CHR ''.'') ''meta.identification.FRBRWork.FRBRalias'') = ''FRBRalias''"
    by (simp add: split_meta_alias)
  let ?new = "Element (''{'' @ namespace doc @ ''}FRBRalias'') (maker_nsmap doc) [] []"
  let ?ins = "\<lambda>e. set_children (take (Suc u) (children e) @ [?new] @ drop (Suc u) (children e)) e"
  let ?f = "\<lambda>e. attr_set ''value'' v (attr_set ''name'' ''title'' e)"
  have mk: "make_element doc ''FRBRalias'' = ?new"
    by (simp add: make_element_def)
  have an: "addnext (w @ [u]) ?new (root doc) = Inr (w @ [Suc u], upd_at w ?ins (root doc))"
    by (simp add: addnext_def)
  have "upd_at (w @ [Suc u]) (attr_set ''value'' v)
          (upd_at (w @ [Suc u]) (attr_set ''name'' ''title'') (upd_at w ?ins (root doc)))
        = upd_at (w @ [Suc u]) ?f (upd_at w ?ins (root doc))"
    using upd_at_upd_at_below [of "w @ [Suc u]" "[]"] by simp
  also have "\<dots> = upd_at w (\<lambda>e. upd_at [Suc u] ?f (?ins e)) (root doc)"
    by (rule upd_at_upd_at_below)
  also have "\<dots> = upd_at w (\<lambda>_. upd_at [Suc u] ?f (?ins work)) (root doc)"
    by (rule upd_at_const [OF we])
  also have "upd_at [Suc u] ?f (?ins work) =
     set_children (take (Suc u) (children work) @
             [Element (''{'' @ namespace doc @ ''}FRBRalias'') (maker_nsmap doc)
                [(''name'', ''title''), (''value'', v)] []] @
             drop (Suc u) (children work)) work"
  proof -
    have l: "length (take (Suc u) (children work)) = Suc u"
      using ul by simp
    have "(take (Suc u) (children work) @ ?new # drop (Suc u) (children work))
            [length (take (Suc u) (children work)) := ?f ?new] =
          take (Suc u) (children work) @ ?f ?new # drop (Suc u) (children work)"
      by (rule list_update_length)
    moreover have "(take (Suc u) (children work) @ ?new # drop (Suc u) (children work)) !
            length (take (Suc u) (children work)) = ?new"
      by (rule nth_append_length)
    ultimately show ?thesis
      using ul unfolding l by (simp add: set_children_def attr_set_def)
  qed
  also have "upd_at w (\<lambda>_. set_children (take (Suc u) (children work) @
             [Element (''{'' @ namespace doc @ ''}FRBRalias'') (maker_nsmap doc)
                [(''name'', ''title''), (''value'', v)] []] @
             drop (Suc u) (children work)) work) (root doc) =
        upd_at w (set_children (take (Suc u) (children work) @
             [Element (''{'' @ namespace doc @ ''}FRBRalias'') (maker_nsmap doc)
                [(''name'', ''title''), (''value'', v)] []] @
             drop (Suc u) (children work))) (root doc)"
    by (rule upd_at_const [OF we, symmetric])
  finally show ?thesis
    using n by (simp add: title_setter_def w elem_at_def we cu ensure_element_def ge last
        mk [simplified] an [simplified] node_path_def set_at_def)
qed

lemma title_setter_no_uri:
  assumes w: "meta_chain doc [''identification'', ''FRBRWork''] = Inr w"
    and we: "get_at (root doc) w = Some work"
    and n: "first_index (\<lambda>c. tag c = ''{'' @ namespace doc @ ''}FRBRalias'' \<and>
                              attr_get c ''name'' = Some ''title'') (children work) = None"
    and u: "first_index (\<lambda>c. tag c = child_tag (tag work) ''FRBRuri'') (children work) = None"
  shows "title_setter doc v =
     Inl (AttributeError (''no such child: '' @ child_tag (tag work) ''FRBRuri''))"
proof -
  have cu: "meta_chain doc [''identification'', ''FRBRWork'', ''FRBRuri''] =
      Inl (AttributeError (''no such child: '' @ child_tag (tag work) ''FRBRuri''))"
    using meta_chain_snoc [OF w we, of "''FRBRuri''"] u by simp
  show ?thesis
    using n [simplified] by (simp add: title_setter_def w elem_at_def we cu)
qed




section \<open>Lifecycle and references\<close>

lemma get_at_upd_at_tags:
  assumes "\<And>e. tag (f e) = tag e" and "\<not> prefix q p"
  shows "rel_option (\<lambda>a b. tag a = tag b \<and> map tag (children a) = map tag (children b))
           (get_at (upd_at q f t) p) (get_at t p)"
  using assms(2)
proof (induction p arbitrary: q t)
  case Nil
  then obtain j q' where q: "q = j # q'" by (cases q) auto
  show ?case
    by (auto simp: q map_update tag_upd_at [of f, OF assms(1)] intro!: nth_equalityI
        simp: nth_list_update)
next
  case (Cons i p)
  then obtain j q' where q: "q = j # q'" by (cases q) auto
  show ?case
  proof (cases "i = j")
    case True
    then have "\<not> prefix q' p" using Cons.prems q by simp
    from Cons.IH [OF this] show ?thesis
      by (auto simp: q True option.rel_refl)
  next
    case False
    then show ?thesis by (auto simp: q option.rel_refl)
  qed
qed

lemma objectify_getattr_upd_at_below:
  assumes "\<And>e. tag (f e) = tag e" and "\<not> prefix q p"
  shows "objectify_getattr (upd_at q f t) p n = objectify_getattr t p n"
proof -
  have r: "rel_option (\<lambda>a b. tag a = tag b \<and> map tag (children a) = map tag (children b))
           (get_at (upd_at q f t) p) (get_at t p)"
    using assms by (rule get_at_upd_at_tags)
  have fi: "first_index (\<lambda>c. tag c = T) cs = first_index (\<lambda>x. x = T) (map tag cs)" for T cs
    by (simp add: first_index_map)
  show ?thesis
    using r
    by (cases "get_at (upd_at q f t) p"; cases "get_at t p")
       (auto simp: objectify_getattr_def fi split: option.splits)
qed

lemma objectify_getattr_path:
  "objectify_getattr t p n = Inr q \<Longrightarrow> \<exists>i. q = p @ [i]"
  by (auto simp: objectify_getattr_def split: option.splits)

lemma meta_path:
  assumes "meta doc = Inr m"
  shows "\<exists>i j. m = [i, j] \<and> main doc = Inr [i]"
proof -
  obtain mp where mp: "main doc = Inr mp" and m: "objectify_getattr (root doc) mp ''meta'' = Inr m"
    using assms by (auto simp: meta_def bindE_eq_Inr)
  obtain i where "mp = [i]"
    using objectify_getattr_path [of "root doc" "[]" "document_type doc" mp] mp
    by (auto simp: main_def)
  moreover obtain j where "m = mp @ [j]"
    using objectify_getattr_path [OF m] by blast
  ultimately show ?thesis using mp by simp
qed

lemma meta_upd_at:
  assumes "meta doc = Inr m" and "\<And>e. tag (f e) = tag e"
  shows "meta (doc\<lparr>root := upd_at m f (root doc)\<rparr>) = Inr m"
proof -
  obtain i j where m: "m = [i, j]" and mn: "main doc = Inr [i]"
    using meta_path [OF assms(1)] by blast
  have a: "objectify_getattr (upd_at m f (root doc)) [] n = objectify_getattr (root doc) [] n" for n
    by (rule objectify_getattr_upd_at_below [OF assms(2)]) (simp add: m)
  have b: "objectify_getattr (upd_at m f (root doc)) [i] n = objectify_getattr (root doc) [i] n" for n
    by (rule objectify_getattr_upd_at_below [OF assms(2)]) (simp add: m)
  show ?thesis
    using assms(1) mn by (simp add: meta_def main_def a b)
qed

lemma put_meta_fields [simp]:
  "namespace (put_meta doc m me) = namespace doc"
  "maker_nsmap (put_meta doc m me) = maker_nsmap doc"
  "document_type (put_meta doc m me) = document_type doc"
  "main_content_tag (put_meta doc m me) = main_content_tag doc"
  "root (put_meta doc m me) = upd_at m (\<lambda>_. me) (root doc)"
  by (simp_all add: put_meta_def)

lemma upd_at_upd_at_const: "upd_at p (\<lambda>_. y) (upd_at p (\<lambda>_. x) t) = upd_at p (\<lambda>_. y) t"
  using upd_at_upd_at_below [of p "[]" "\<lambda>_. y" "\<lambda>_. x" t] by simp

lemma put_meta_put_meta [simp]: "put_meta (put_meta doc m x) m y = put_meta doc m y"
  by (simp add: put_meta_def upd_at_upd_at_const)

lemma upd_at_id: "upd_at m (\<lambda>e. e) t = t"
  by (induction m arbitrary: t) (auto simp: list_update_same_conv)

lemma put_meta_same:
  assumes "get_at (root doc) m = Some me"
  shows "put_meta doc m me = doc"
proof -
  have "upd_at m (\<lambda>_. me) (root doc) = upd_at m (\<lambda>e. e) (root doc)"
    by (rule upd_at_const [OF assms, symmetric])
  then show ?thesis by (simp add: put_meta_def upd_at_id)
qed

lemma put_meta_meta:
  assumes m: "meta doc = Inr m" and me: "get_at (root doc) m = Some me" and t: "tag me' = tag me"
  shows "meta (put_meta doc m me') = Inr m" and "get_at (root (put_meta doc m me')) m = Some me'"
proof -
  let ?g = "\<lambda>e. Element (tag e) (nsmap me') (attrib me') (children me')"
  have "upd_at m (\<lambda>_. me') (root doc) = upd_at m (\<lambda>_. ?g me) (root doc)"
    using t by (cases me') simp
  also have "\<dots> = upd_at m ?g (root doc)"
    by (rule upd_at_const [OF me, symmetric])
  finally have e: "put_meta doc m me' = doc\<lparr>root := upd_at m ?g (root doc)\<rparr>"
    by (simp add: put_meta_def)
  show "meta (put_meta doc m me') = Inr m"
    unfolding e by (rule meta_upd_at [OF m]) simp
  show "get_at (root (put_meta doc m me')) m = Some me'"
    using get_at_upd_at_same [OF me, of "\<lambda>_. me'"] by simp
qed

lemma meta_chain_one:
  assumes "meta doc = Inr m" and "get_at (root doc) m = Some me"
  shows "meta_chain doc [n] =
     (case first_index (\<lambda>c. tag c = child_tag (tag me) n) (children me) of
        None \<Rightarrow> Inl (AttributeError (''no such child: '' @ child_tag (tag me) n))
      | Some i \<Rightarrow> Inr (m @ [i]))"
proof -
  have "meta_chain doc [] = Inr m"
    by (simp add: meta_chain_def assms(1))
  from meta_chain_snoc [OF this assms(2), of n] show ?thesis by simp
qed

lemma set_at_meta_child:
  assumes "get_at (root doc) m = Some me" and "i < length (children me)"
  shows "set_at (m @ [i]) k v doc =
     put_meta doc m (set_children ((children me)[i := attr_set k v (children me ! i)]) me)"
proof -
  have "upd_at (m @ [i]) (attr_set k v) (root doc) = upd_at m (upd_at [i] (attr_set k v)) (root doc)"
    by (rule upd_at_append)
  also have "\<dots> = upd_at m (\<lambda>_. upd_at [i] (attr_set k v) me) (root doc)"
    by (rule upd_at_const [OF assms(1)])
  finally show ?thesis
    by (simp only: set_at_def put_meta_def upd_at_child [OF assms(2)])
qed

lemma addnext_meta_child:
  assumes "get_at (root doc) m = Some me"
  shows "addnext (m @ [k]) new (root doc) =
     Inr (m @ [Suc k],
          upd_at m (\<lambda>_. set_children (take (Suc k) (children me) @ [new] @
                                        drop (Suc k) (children me)) me) (root doc))"
proof -
  let ?f = "\<lambda>e. set_children (take (Suc k) (children e) @ [new] @ drop (Suc k) (children e)) e"
  have "upd_at m ?f (root doc) = upd_at m (\<lambda>_. ?f me) (root doc)"
    by (rule upd_at_const [OF assms])
  then show ?thesis by (simp add: addnext_def)
qed

lemma insert_first_meta_child:
  assumes "get_at (root doc) m = Some me" and "r < length (children me)"
  shows "insert_first (m @ [r]) ref (root doc) =
     upd_at m (\<lambda>_. set_children
        ((children me)[r := set_children (ref # children (children me ! r)) (children me ! r)]) me)
       (root doc)"
proof -
  let ?f = "\<lambda>e. set_children (ref # children e) e"
  have "upd_at (m @ [r]) ?f (root doc) = upd_at m (upd_at [r] ?f) (root doc)"
    by (rule upd_at_append)
  also have "\<dots> = upd_at m (\<lambda>_. upd_at [r] ?f me) (root doc)"
    by (rule upd_at_const [OF assms(1)])
  finally show ?thesis
    by (simp only: insert_first_def upd_at_child [OF assms(2)])
qed

lemma attr_at_meta_child:
  assumes "get_at (root doc) m = Some me" and "i < length (children me)"
  shows "attr_at (root doc) (m @ [i]) k = attr_get (children me ! i) k"
  using assms by (simp add: attr_at_def get_at_append)

lemma elem_at_meta_child:
  assumes "get_at (root doc) m = Some me" and "i < length (children me)"
  shows "elem_at doc (m @ [i]) = Inr (children me ! i)"
  using assms by (simp add: elem_at_def get_at_append)

lemma meta_children_eq:
  assumes "meta doc = Inr m" and "get_at (root doc) m = Some me"
  shows "meta_children doc = children me"
  using assms by (simp add: meta_children_def)

lemma split_meta_lifecycle:
  "split_on (CHR ''.'') ''meta.lifecycle'' = [''meta'', ''lifecycle'']"
  "split_on (CHR ''.'') ''meta.references'' = [''meta'', ''references'']"
  by code_simp+

lemma ensure_element_meta_found:
  assumes "meta_chain doc [n] = Inr q" and "split_on (CHR ''.'') name = [''meta'', n]"
    and "child_name n"
  shows "ensure_element doc name after None = Inr (Node q, doc)"
  using assms
  by (simp add: ensure_element_def get_element_def get_element_self_meta
      del: get_element_loop.simps)

lemma ensure_element_meta_created:
  assumes "meta_chain doc [n] = Inl e" and "split_on (CHR ''.'') name = [''meta'', n]"
    and "get_at (root doc) m = Some me" and "child_name n"
  shows "ensure_element doc name (m @ [k]) None =
     Inr (Node (m @ [Suc k]),
          put_meta doc m (set_children (take (Suc k) (children me) @ [make_element doc n] @
                                        drop (Suc k) (children me)) me))"
  using assms(1,2,4)
  by (simp add: ensure_element_def get_element_def get_element_self_meta
      addnext_meta_child [OF assms(3)] put_meta_def
      del: get_element_loop.simps)

lemma bindF_simps [simp]:
  "bindF None f = None"
  "bindF (Some (Inl e)) f = Some (Inl e)"
  "bindF (Some (Inr x)) f = f x"
  by (simp_all add: bindF_def)

lemma first_index_append:
  "first_index P (xs @ ys) =
     (case first_index P xs of
        Some i \<Rightarrow> Some i
      | None \<Rightarrow> (case first_index P ys of None \<Rightarrow> None | Some i \<Rightarrow> Some (length xs + i)))"
  by (induction xs) (auto split: option.splits)

lemma first_index_insert_append:
  assumes "\<not> P new"
  shows "first_index P (as @ [new] @ bs) =
     (case first_index P (as @ bs) of
        None \<Rightarrow> None
      | Some i \<Rightarrow> Some (if i < length as then i else Suc i))"
proof (cases "first_index P as")
  case None
  then show ?thesis
    using assms by (cases "first_index P bs") (simp_all add: first_index_append)
next
  case (Some i)
  then have "i < length as" using first_index_SomeD [OF Some] by simp
  then show ?thesis using Some by (simp add: first_index_append)
qed

lemma first_index_insert_other:
  assumes "\<not> P new" and "k \<le> length xs"
  shows "first_index P (take k xs @ [new] @ drop k xs) =
     (case first_index P xs of
        None \<Rightarrow> None
      | Some i \<Rightarrow> Some (if i < k then i else Suc i))"
  using first_index_insert_append [of P new "take k xs" "drop k xs"] assms
  by (simp add: min_absorb2 cong: option.case_cong)

lemma first_index_update_same:
  "i < length xs \<Longrightarrow> P y = P (xs ! i) \<Longrightarrow> first_index P (xs[i := y]) = first_index P xs"
proof (induction xs arbitrary: i)
  case Nil
  then show ?case by simp
next
  case (Cons x xs)
  then show ?case by (cases i) auto
qed

lemma first_index_insert_new:
  assumes "P new" and "first_index P xs = None" and "k \<le> length xs"
  shows "first_index P (take k xs @ [new] @ drop k xs) = Some k"
proof -
  have "first_index P (take k xs) = None"
    using assms(2) by (auto simp: first_index_None_iff dest: in_set_takeD)
  then show ?thesis
    using assms by (simp add: first_index_append)
qed

lemma nth_insert_before:
  "i < k \<Longrightarrow> k \<le> length xs \<Longrightarrow> (take k xs @ [new] @ drop k xs) ! i = xs ! i"
  by (simp add: nth_append)

lemma nth_insert_at:
  "k \<le> length xs \<Longrightarrow> (take k xs @ [new] @ drop k xs) ! k = new"
  by (simp add: nth_append)

lemma update_insert_at:
  "k \<le> length xs \<Longrightarrow>
   (take k xs @ [new] @ drop k xs)[k := y] = take k xs @ [y] @ drop k xs"
  by (simp add: list_update_append)

lemma length_filter_update_same:
  assumes "i < length xs" and "P y = P (xs ! i)"
  shows "length (filter P (xs[i := y])) = length (filter P xs)"
proof -
  have a: "filter P (xs[i := y]) =
      filter P (take i xs) @ filter P [y] @ filter P (drop (Suc i) xs)"
    by (simp add: upd_conv_take_nth_drop [OF assms(1)])
  have "filter P xs = filter P (take i xs @ xs ! i # drop (Suc i) xs)"
    by (rule arg_cong [where f = "filter P", OF id_take_nth_drop [OF assms(1)]])
  then have b: "filter P xs =
      filter P (take i xs) @ filter P [xs ! i] @ filter P (drop (Suc i) xs)"
    by simp
  show ?thesis
    using assms(2) by (simp add: a) (simp add: b)
qed

lemma length_filter_insert:
  "length (filter P (take k xs @ [new] @ drop k xs)) =
     length (filter P xs) + (if P new then 1 else 0)"
proof -
  have "filter P xs = filter P (take k xs @ drop k xs)"
    by simp
  then have "filter P xs = filter P (take k xs) @ filter P (drop k xs)"
    by (simp only: filter_append)
  then show ?thesis by simp
qed

lemma sum_list_map_update:
  assumes "i < length xs"
  shows "sum_list (map g (xs[i := y])) + g (xs ! i) = sum_list (map g xs) + (g y :: nat)"
proof -
  have a: "map g (xs[i := y]) = map g (take i xs) @ [g y] @ map g (drop (Suc i) xs)"
    by (simp add: upd_conv_take_nth_drop [OF assms])
  have "map g xs = map g (take i xs @ xs ! i # drop (Suc i) xs)"
    by (rule arg_cong [where f = "map g", OF id_take_nth_drop [OF assms]])
  then have b: "map g xs = map g (take i xs) @ [g (xs ! i)] @ map g (drop (Suc i) xs)"
    by simp
  show ?thesis
    by (simp add: a) (simp add: b)
qed

lemma sum_list_map_insert:
  "sum_list (map g (take k xs @ [new] @ drop k xs)) = sum_list (map g xs) + (g new :: nat)"
proof -
  have "map g xs = map g (take k xs @ drop k xs)"
    by simp
  then have "map g xs = map g (take k xs) @ map g (drop k xs)"
    by (simp only: map_append)
  then show ?thesis by simp
qed

lemma last_child_tag: "n \<noteq> [] \<Longrightarrow> last (child_tag t n) = last n"
  by (cases n) (auto simp: child_tag_def split: option.splits char.splits bool.splits)

lemma meta_chain_child_index:
  assumes "meta doc = Inr m" and "get_at (root doc) m = Some me"
  shows "meta_chain doc [n] =
     (case child_index me n of
        None \<Rightarrow> Inl (AttributeError (''no such child: '' @ child_tag (tag me) n))
      | Some i \<Rightarrow> Inr (m @ [i]))"
  using meta_chain_one [OF assms] by (simp add: child_index_def)

lemma lifecycle_after_meta:
  assumes "meta doc = Inr m" and "get_at (root doc) m = Some me"
  shows "lifecycle_after doc =
     (case child_index me ''publication'' of
        Some i \<Rightarrow> Inr (m @ [i])
      | None \<Rightarrow> (case child_index me ''identification'' of
                   Some i \<Rightarrow> Inr (m @ [i])
                 | None \<Rightarrow> Inl (AttributeError
                      (''no such child: '' @ child_tag (tag me) ''identification''))))"
  by (simp add: lifecycle_after_def meta_chain_child_index [OF assms] split: option.splits)

lemma child_index_SomeD:
  "child_index e n = Some i \<Longrightarrow> i < length (children e) \<and> tag (children e ! i) = child_tag (tag e) n"
  by (auto simp: child_index_def dest: first_index_SomeD)

lemma child_index_set_children:
  "child_index (set_children cs e) n = first_index (\<lambda>c. tag c = child_tag (tag e) n) cs"
  by (simp add: child_index_def set_children_def)

lemma tag_set_children [simp]: "tag (set_children cs e) = tag e"
  and children_set_children [simp]: "children (set_children cs e) = cs"
  and tag_attr_set [simp]: "tag (attr_set k v e) = tag e"
  and children_attr_set [simp]: "children (attr_set k v e) = children e"
  by (simp_all add: set_children_def attr_set_def)

lemma attr_get_attr_set:
  "attr_get (attr_set k v e) k' = (if k = k' then Some v else attr_get e k')"
  by (simp add: attr_get_def attr_set_def update_conv')

lemma lifecycle_ready_meta:
  assumes "meta doc = Inr m" and "get_at (root doc) m = Some me"
  shows "lifecycle_ready doc p \<longleftrightarrow>
     (\<exists>l. p = m @ [l] \<and> child_index me ''lifecycle'' = Some l \<and>
          (\<exists>s. attr_get (children me ! l) ''source'' = Some s \<and> s \<noteq> []) \<and>
          (child_index me ''publication'' \<noteq> None \<or> child_index me ''identification'' \<noteq> None))"
proof -
  have a: "(\<exists>a. lifecycle_after doc = Inr a) \<longleftrightarrow>
      (child_index me ''publication'' \<noteq> None \<or> child_index me ''identification'' \<noteq> None)"
    by (auto simp: lifecycle_after_meta [OF assms] split: option.splits)
  show ?thesis
  proof (cases "child_index me ''lifecycle''")
    case None
    then show ?thesis
      by (simp add: lifecycle_ready_def meta_chain_child_index [OF assms])
  next
    case (Some l)
    then have "l < length (children me)" using child_index_SomeD by blast
    then show ?thesis
      using Some a
      by (auto simp: lifecycle_ready_def meta_chain_child_index [OF assms]
          attr_at_meta_child [OF assms(2)])
  qed
qed

lemma ensure_lifecycle_step:
  assumes "lifecycle_after doc = Inr a"
    and "ensure_element doc ''meta.lifecycle'' a None = Inr (Node p, doc1)"
  shows "ensure_lifecycle (Suc n) doc =
     (if attr_at (root doc1) p ''source'' = None \<or> attr_at (root doc1) p ''source'' = Some []
      then bindF (ensure_reference n (set_at p ''source'' (''#'' @ source ! 1) doc1)
                    ''TLCOrganization'' (source ! 0) (source ! 1) (source ! 2))
             (\<lambda>(r, doc). Some (Inr (p, doc)))
      else Some (Inr (p, doc1)))"
  by (simp add: assms node_path_def)

lemma ensure_reference_step:
  assumes "ensure_lifecycle n doc = Some (Inr (lc, doc1))"
    and "ensure_element doc1 ''meta.references'' lc None = Inr (Node q, doc2)"
    and "elem_at doc2 q = Inr re"
  shows "ensure_reference (Suc n) doc elem nm ident href =
     (case first_index (\<lambda>c. tag c = ''{'' @ namespace doc2 @ ''}'' @ elem \<and>
                             attr_get c ''eId'' = Some ident) (children re) of
        Some j \<Rightarrow> Some (Inr (q @ [j], doc2))
      | None \<Rightarrow>
          Some (Inr (q @ [0],
            doc2\<lparr>root := insert_first q
              (attr_set ''showAs'' nm (attr_set ''href'' href
                 (attr_set ''eId'' ident (make_element doc2 elem)))) (root doc2)\<rparr>)))"
  by (simp add: assms node_path_def Let_def split: option.splits)

declare ensure_lifecycle.simps [simp del] ensure_reference.simps [simp del]

lemma ensure_lifecycle_ready:
  assumes "lifecycle_ready doc p"
  shows "ensure_lifecycle (Suc n) doc = Some (Inr (p, doc))"
proof -
  obtain a s where a: "lifecycle_after doc = Inr a"
    and c: "meta_chain doc [''lifecycle''] = Inr p"
    and s: "attr_at (root doc) p ''source'' = Some s" "s \<noteq> []"
    using assms by (auto simp: lifecycle_ready_def)
  have e: "ensure_element doc ''meta.lifecycle'' a None = Inr (Node p, doc)"
    using c by (rule ensure_element_meta_found) (rule split_meta_lifecycle, simp)
  show ?thesis
    using s by (simp add: ensure_lifecycle_step [OF a e])
qed

lemma org_match_fun:
  "org_match ns = (\<lambda>r. tag r = ''{'' @ ns @ ''}TLCOrganization'' \<and>
                        attr_get r ''eId'' = Some (source ! 1))"
  by (rule ext) (simp add: org_match_def)

lemma block_count_fun:
  "block_count ns = (\<lambda>c. if tag c = ''{'' @ ns @ ''}references''
                          then length (filter (org_match ns) (children c)) else 0)"
  by (rule ext) (simp add: block_count_def)

lemma length_org_references:
  "length (org_references doc) = org_count (namespace doc) (meta_children doc)"
  unfolding org_references_def org_count_def block_count_fun org_match_fun
  by (simp add: length_concat comp_def sum_list_map_filter' cong: if_cong)

lemma sum_list_pos_member:
  "i < length xs \<Longrightarrow> 0 < g (xs ! i) \<Longrightarrow> sum_list (map g xs) \<noteq> (0::nat)"
  by (induction xs arbitrary: i) (auto simp: nth_Cons split: nat.splits)

lemma filter_nonempty_first_index: "first_index P xs = Some j \<Longrightarrow> filter P xs \<noteq> []"
  by (auto simp: filter_empty_conv dest!: first_index_SomeD)

lemma filter_empty_first_index: "first_index P xs = None \<Longrightarrow> filter P xs = []"
  by (simp add: first_index_None_iff filter_empty_conv)

lemma tags_differ_by_last:
  "n \<noteq> [] \<Longrightarrow> n' \<noteq> [] \<Longrightarrow> last n \<noteq> last n' \<Longrightarrow> ''{'' @ ns @ ''}'' @ n \<noteq> child_tag t n'"
  using last_child_tag [of n' t] by (metis last_appendR append_is_Nil_conv)

lemma make_element_plain:
  "make_element doc ''references'' =
     Element (''{'' @ namespace doc @ ''}references'') (maker_nsmap doc) [] []"
  "make_element doc ''lifecycle'' =
     Element (''{'' @ namespace doc @ ''}lifecycle'') (maker_nsmap doc) [] []"
  "make_element doc ''TLCOrganization'' =
     Element (''{'' @ namespace doc @ ''}TLCOrganization'') (maker_nsmap doc) [] []"
  by (simp_all add: make_element_def)

lemma child_tag_namespace:
  "namespace_of t = Some ns \<Longrightarrow> plain_name n \<Longrightarrow> child_tag t n = ''{'' @ ns @ ''}'' @ n"
  by (simp add: child_tag_def plain_name_case)

lemma org_match_new:
  "org_match (namespace doc) (attr_set ''showAs'' nm (attr_set ''href'' href
      (attr_set ''eId'' (source ! 1) (make_element doc ''TLCOrganization''))))"
  by (simp add: org_match_def make_element_plain attr_get_attr_set)

lemma block_count_new:
  assumes "tag b = ''{'' @ ns @ ''}references''" and "org_match ns r"
    and "filter (org_match ns) (children b) = []"
  shows "block_count ns (set_children (r # children b) b) = 1"
  using assms by (simp add: block_count_def)

lemma block_count_empty:
  assumes "filter (org_match ns) (children b) = []"
  shows "block_count ns b = 0"
  using assms by (simp add: block_count_def)

lemma block_count_pos:
  assumes "tag b = ''{'' @ ns @ ''}references''" and "filter (org_match ns) (children b) \<noteq> []"
  shows "0 < block_count ns b"
  using assms by (simp add: block_count_def)

lemma first_index_org_match:
  "first_index (\<lambda>c. tag c = ''{'' @ ns @ ''}'' @ ''TLCOrganization'' \<and>
                     attr_get c ''eId'' = Some (source ! 1)) xs = first_index (org_match ns) xs"
  unfolding org_match_fun by simp

lemma org_ref_put_meta [simp]: "org_ref (put_meta doc m me) nm href = org_ref doc nm href"
  by (simp add: org_ref_def make_element_def)

lemma org_match_org_ref: "org_match (namespace doc) (org_ref doc nm href)"
  unfolding org_ref_def by (rule org_match_new)

lemma ensure_org_reference_step:
  assumes "ensure_lifecycle n doc = Some (Inr (lc, doc1))"
    and "ensure_element doc1 ''meta.references'' lc None = Inr (Node q, doc2)"
    and "elem_at doc2 q = Inr re"
  shows "ensure_reference (Suc n) doc ''TLCOrganization'' nm (source ! 1) href =
     (case first_index (org_match (namespace doc2)) (children re) of
        Some j \<Rightarrow> Some (Inr (q @ [j], doc2))
      | None \<Rightarrow>
          Some (Inr (q @ [0], doc2\<lparr>root := insert_first q (org_ref doc2 nm href) (root doc2)\<rparr>)))"
  unfolding ensure_reference_step [OF assms] first_index_org_match org_ref_def ..

lemma ensure_reference_found_match:
  assumes m: "meta doc = Inr m" and me: "get_at (root doc) m = Some me"
    and rdy: "lifecycle_ready doc p"
    and r: "child_index me ''references'' = Some r"
    and j: "first_index (org_match (namespace doc)) (children (children me ! r)) = Some j"
  shows "ensure_reference (Suc (Suc n)) doc ''TLCOrganization'' nm (source ! 1) href =
           Some (Inr (m @ [r] @ [j], doc))"
    and "namespace_of (tag me) = Some (namespace doc) \<Longrightarrow>
           org_count (namespace doc) (children me) \<noteq> 0"
proof -
  have rl: "r < length (children me)"
    and rt: "tag (children me ! r) = child_tag (tag me) ''references''"
    using child_index_SomeD [OF r] by simp_all
  have lc: "ensure_lifecycle (Suc n) doc = Some (Inr (p, doc))"
    by (rule ensure_lifecycle_ready [OF rdy])
  have c: "meta_chain doc [''references''] = Inr (m @ [r])"
    by (simp add: meta_chain_child_index [OF m me] r)
  have e: "ensure_element doc ''meta.references'' p None = Inr (Node (m @ [r]), doc)"
    using c by (rule ensure_element_meta_found) (rule split_meta_lifecycle, simp)
  have el: "elem_at doc (m @ [r]) = Inr (children me ! r)"
    by (rule elem_at_meta_child [OF me rl])
  show "ensure_reference (Suc (Suc n)) doc ''TLCOrganization'' nm (source ! 1) href =
           Some (Inr (m @ [r] @ [j], doc))"
    unfolding ensure_org_reference_step [OF lc e el] j by simp
  assume ns: "namespace_of (tag me) = Some (namespace doc)"
  have tr: "tag (children me ! r) = ''{'' @ namespace doc @ ''}references''"
    unfolding rt using child_tag_namespace [OF ns, of "''references''"] by simp
  have "0 < block_count (namespace doc) (children me ! r)"
    using tr filter_nonempty_first_index [OF j] by (rule block_count_pos)
  then show "org_count (namespace doc) (children me) \<noteq> 0"
    unfolding org_count_def by (rule sum_list_pos_member [OF rl])
qed

lemma ensure_reference_found_other:
  assumes m: "meta doc = Inr m" and me: "get_at (root doc) m = Some me"
    and rdy: "lifecycle_ready doc p"
    and r: "child_index me ''references'' = Some r"
    and j: "first_index (org_match (namespace doc)) (children (children me ! r)) = None"
    and me': "me' = set_children ((children me)[r := set_children
                (org_ref doc nm href # children (children me ! r)) (children me ! r)]) me"
  shows "ensure_reference (Suc (Suc n)) doc ''TLCOrganization'' nm (source ! 1) href =
           Some (Inr (m @ [r] @ [0], put_meta doc m me'))"
    and "child_index me' k = child_index me k"
    and "children me' ! last p = children me ! last p"
    and "length (filter (\<lambda>c. tag c = T) (children me')) =
           length (filter (\<lambda>c. tag c = T) (children me))"
    and "namespace_of (tag me) = Some (namespace doc) \<Longrightarrow>
           org_count (namespace doc) (children me) = 0 \<Longrightarrow>
           org_count (namespace doc) (children me') = 1"
proof -
  let ?cs = "children me"
  let ?ns = "namespace doc"
  let ?y = "set_children (org_ref doc nm href # children (?cs ! r)) (?cs ! r)"
  obtain l where p: "p = m @ [l]" and l: "child_index me ''lifecycle'' = Some l"
    using rdy unfolding lifecycle_ready_meta [OF m me] by blast
  have lt: "tag (?cs ! l) = child_tag (tag me) ''lifecycle''"
    using child_index_SomeD [OF l] by simp
  have rl: "r < length ?cs"
    and rt: "tag (?cs ! r) = child_tag (tag me) ''references''"
    using child_index_SomeD [OF r] by simp_all
  have lc: "ensure_lifecycle (Suc n) doc = Some (Inr (p, doc))"
    by (rule ensure_lifecycle_ready [OF rdy])
  have c: "meta_chain doc [''references''] = Inr (m @ [r])"
    by (simp add: meta_chain_child_index [OF m me] r)
  have e: "ensure_element doc ''meta.references'' p None = Inr (Node (m @ [r]), doc)"
    using c by (rule ensure_element_meta_found) (rule split_meta_lifecycle, simp)
  have el: "elem_at doc (m @ [r]) = Inr (?cs ! r)"
    by (rule elem_at_meta_child [OF me rl])
  show "ensure_reference (Suc (Suc n)) doc ''TLCOrganization'' nm (source ! 1) href =
           Some (Inr (m @ [r] @ [0], put_meta doc m me'))"
    unfolding ensure_org_reference_step [OF lc e el] j me'
      insert_first_meta_child [OF me rl] put_meta_def by simp
  show "child_index me' k = child_index me k"
    unfolding me' child_index_set_children unfolding child_index_def
    by (rule first_index_update_same [OF rl]) simp
  have lr: "l \<noteq> r"
  proof
    assume "l = r"
    then have "last (child_tag (tag me) ''lifecycle'') = last (child_tag (tag me) ''references'')"
      using lt rt by simp
    then show False by (simp add: last_child_tag)
  qed
  then show "children me' ! last p = children me ! last p"
    unfolding me' p by simp
  show "length (filter (\<lambda>c. tag c = T) (children me')) =
           length (filter (\<lambda>c. tag c = T) (children me))"
    unfolding me' children_set_children
    by (rule length_filter_update_same [OF rl]) simp
  assume ns: "namespace_of (tag me) = Some ?ns" and z: "org_count ?ns ?cs = 0"
  have tr: "tag (?cs ! r) = ''{'' @ ?ns @ ''}references''"
    unfolding rt using child_tag_namespace [OF ns, of "''references''"] by simp
  note f = filter_empty_first_index [OF j]
  have g0: "block_count ?ns (?cs ! r) = 0"
    by (rule block_count_empty [OF f])
  have g1: "block_count ?ns ?y = 1"
    by (rule block_count_new [OF tr org_match_org_ref f])
  from sum_list_map_update [OF rl, of "block_count ?ns" ?y]
  have "sum_list (map (block_count ?ns) (?cs[r := ?y])) = sum_list (map (block_count ?ns) ?cs) + 1"
    unfolding g0 g1 by simp
  then show "org_count ?ns (children me') = 1"
    using z unfolding org_count_def me' children_set_children by simp
qed

lemma tag_org_block:
  "tag (set_children [r] (make_element doc ''references'')) = ''{'' @ namespace doc @ ''}references''"
  by (simp add: make_element_plain)

lemma ensure_reference_created:
  assumes m: "meta doc = Inr m" and me: "get_at (root doc) m = Some me"
    and rdy: "lifecycle_ready doc p"
    and r: "child_index me ''references'' = None"
    and me': "me' = set_children (take (Suc (last p)) (children me) @
                 [set_children [org_ref doc nm href] (make_element doc ''references'')] @
                 drop (Suc (last p)) (children me)) me"
  shows "ensure_reference (Suc (Suc n)) doc ''TLCOrganization'' nm (source ! 1) href =
           Some (Inr (m @ [Suc (last p)] @ [0], put_meta doc m me'))"
    and "k \<noteq> [] \<Longrightarrow> last k \<noteq> CHR ''s'' \<Longrightarrow> child_index me' k =
           (case child_index me k of None \<Rightarrow> None
            | Some i \<Rightarrow> Some (if i < Suc (last p) then i else Suc i))"
    and "children me' ! last p = children me ! last p"
    and "T \<noteq> [] \<Longrightarrow> last T \<noteq> CHR ''s'' \<Longrightarrow>
         length (filter (\<lambda>c. tag c = T) (children me')) =
           length (filter (\<lambda>c. tag c = T) (children me))"
    and "org_count (namespace doc) (children me') = Suc (org_count (namespace doc) (children me))"
proof -
  let ?cs = "children me"
  let ?ns = "namespace doc"
  let ?new = "make_element doc ''references''"
  let ?new' = "set_children [org_ref doc nm href] ?new"
  obtain l where p: "p = m @ [l]" and l: "child_index me ''lifecycle'' = Some l"
    using rdy unfolding lifecycle_ready_meta [OF m me] by blast
  have lp: "last p = l" by (simp add: p)
  have ll: "l < length ?cs"
    using child_index_SomeD [OF l] by simp
  then have sl: "Suc l \<le> length ?cs" by simp
  let ?me1 = "set_children (take (Suc l) ?cs @ [?new] @ drop (Suc l) ?cs) me"
  let ?doc1 = "put_meta doc m ?me1"
  have lc: "ensure_lifecycle (Suc n) doc = Some (Inr (p, doc))"
    by (rule ensure_lifecycle_ready [OF rdy])
  have c: "meta_chain doc [''references''] =
      Inl (AttributeError (''no such child: '' @ child_tag (tag me) ''references''))"
    by (simp add: meta_chain_child_index [OF m me] r)
  have e: "ensure_element doc ''meta.references'' p None = Inr (Node (m @ [Suc l]), ?doc1)"
    unfolding p
    using c split_meta_lifecycle(2) me by (rule ensure_element_meta_created) simp
  have t1: "tag ?me1 = tag me" by simp
  note m1 = put_meta_meta [OF m me t1]
  have l1: "Suc l < length (children ?me1)" using sl by simp
  have n1: "children ?me1 ! Suc l = ?new"
    unfolding children_set_children by (rule nth_insert_at [OF sl])
  have el: "elem_at ?doc1 (m @ [Suc l]) = Inr ?new"
    using elem_at_meta_child [OF m1(2) l1] unfolding n1 .
  have cn: "children ?new = []" by (simp add: make_element_plain)
  have u: "(children ?me1)[Suc l := set_children
              (org_ref doc nm href # children (children ?me1 ! Suc l)) (children ?me1 ! Suc l)] =
           take (Suc l) ?cs @ [?new'] @ drop (Suc l) ?cs"
    unfolding n1 cn unfolding children_set_children
    by (rule update_insert_at [OF sl])
  have me2: "set_children (take (Suc l) ?cs @ [?new'] @ drop (Suc l) ?cs) ?me1 = me'"
    unfolding me' lp by (simp add: set_children_def)
  have i1: "insert_first (m @ [Suc l]) (org_ref ?doc1 nm href) (root ?doc1) =
      upd_at m (\<lambda>_. me') (root ?doc1)"
    unfolding org_ref_put_meta insert_first_meta_child [OF m1(2) l1] u me2 ..
  have i2: "?doc1\<lparr>root := upd_at m (\<lambda>_. me') (root ?doc1)\<rparr> = put_meta ?doc1 m me'"
    by (simp only: put_meta_def)
  have ins: "?doc1\<lparr>root := insert_first (m @ [Suc l]) (org_ref ?doc1 nm href) (root ?doc1)\<rparr> =
      put_meta doc m me'"
    unfolding i1 i2 by (rule put_meta_put_meta)
  show "ensure_reference (Suc (Suc n)) doc ''TLCOrganization'' nm (source ! 1) href =
           Some (Inr (m @ [Suc (last p)] @ [0], put_meta doc m me'))"
    unfolding ensure_org_reference_step [OF lc e el] cn ins lp by simp
  have tn: "tag ?new' = ''{'' @ ?ns @ ''}references''"
    by (rule tag_org_block)
  show "child_index me' k =
           (case child_index me k of None \<Rightarrow> None
            | Some i \<Rightarrow> Some (if i < Suc (last p) then i else Suc i))"
    if "k \<noteq> []" "last k \<noteq> CHR ''s''"
  proof -
    have "tag ?new' \<noteq> child_tag (tag me) k"
      unfolding tn using tags_differ_by_last [of "''references''" k ?ns "tag me"] that by simp
    then show ?thesis
      unfolding me' lp child_index_set_children unfolding child_index_def
      by (rule first_index_insert_other [OF _ sl])
  qed
  show "children me' ! last p = children me ! last p"
    unfolding me' lp children_set_children by (rule nth_insert_before [OF _ sl]) simp
  show "length (filter (\<lambda>c. tag c = T) (children me')) =
           length (filter (\<lambda>c. tag c = T) (children me))"
    if "T \<noteq> []" "last T \<noteq> CHR ''s''"
  proof -
    have "tag ?new' \<noteq> T"
      unfolding tn using that by auto
    then show ?thesis
      unfolding me' lp children_set_children length_filter_insert by simp
  qed
  have f: "filter (org_match ?ns) (children ?new) = []"
    by (simp add: cn)
  have "block_count ?ns (set_children (org_ref doc nm href # children ?new) ?new) = 1"
    by (rule block_count_new [OF _ org_match_org_ref f]) (simp add: make_element_plain)
  then have g1: "block_count ?ns ?new' = 1"
    unfolding cn .
  show "org_count ?ns (children me') = Suc (org_count ?ns ?cs)"
    unfolding org_count_def me' lp children_set_children sum_list_map_insert g1 by simp
qed

lemma ensure_reference_ready:
  assumes m: "meta doc = Inr m" and me: "get_at (root doc) m = Some me"
    and rdy: "lifecycle_ready doc p"
  shows "\<exists>q me'. ensure_reference (Suc (Suc n)) doc ''TLCOrganization'' nm (source ! 1) href =
            Some (Inr (q, put_meta doc m me')) \<and>
          tag me' = tag me \<and>
          lifecycle_ready (put_meta doc m me') p \<and>
          length (filter (\<lambda>c. tag c = ''{'' @ namespace doc @ ''}lifecycle'') (children me')) =
            length (filter (\<lambda>c. tag c = ''{'' @ namespace doc @ ''}lifecycle'') (children me)) \<and>
          (\<forall>k i. (k = ''publication'' \<or> k = ''identification'') \<longrightarrow>
             (child_index me k = None \<longrightarrow> child_index me' k = None) \<and>
             (child_index me k = Some i \<longrightarrow> i \<le> last p \<longrightarrow> child_index me' k = Some i)) \<and>
          (namespace_of (tag me) = Some (namespace doc) \<longrightarrow>
           org_count (namespace doc) (children me) = 0 \<longrightarrow>
           org_count (namespace doc) (children me') = 1)"
proof -
  let ?ns = "namespace doc"
  let ?T = "''{'' @ ?ns @ ''}lifecycle''"
  obtain l s where p: "p = m @ [l]" and l: "child_index me ''lifecycle'' = Some l"
    and s: "attr_get (children me ! l) ''source'' = Some s" "s \<noteq> []"
    and a: "child_index me ''publication'' \<noteq> None \<or> child_index me ''identification'' \<noteq> None"
    using rdy unfolding lifecycle_ready_meta [OF m me] by blast
  have lp: "last p = l" by (simp add: p)
  show ?thesis
  proof (cases "child_index me ''references''")
    case (Some r)
    show ?thesis
    proof (cases "first_index (org_match ?ns) (children (children me ! r))")
      case (Some j)
      note f = ensure_reference_found_match [OF m me rdy \<open>child_index me ''references'' = Some r\<close> Some]
      have 1: "ensure_reference (Suc (Suc n)) doc ''TLCOrganization'' nm (source ! 1) href =
            Some (Inr (m @ [r] @ [j], put_meta doc m me))"
        unfolding put_meta_same [OF me] by (rule f(1))
      have 3: "lifecycle_ready (put_meta doc m me) p"
        unfolding put_meta_same [OF me] by (rule rdy)
      show ?thesis
        apply (rule exI [of _ "m @ [r] @ [j]"], rule exI [of _ me])
        using 1 3 f(2) by simp
    next
      case None
      define me' where "me' = set_children ((children me)[r := set_children
                (org_ref doc nm href # children (children me ! r)) (children me ! r)]) me"
      note f = ensure_reference_found_other
        [OF m me rdy \<open>child_index me ''references'' = Some r\<close> None me'_def]
      have t: "tag me' = tag me" by (simp add: me'_def)
      have 3: "lifecycle_ready (put_meta doc m me') p"
        unfolding lifecycle_ready_meta [OF put_meta_meta [OF m me t]] f(2)
        using l s a f(3) [unfolded lp] by (simp add: p)
      show ?thesis
        apply (rule exI [of _ "m @ [r] @ [0]"], rule exI [of _ me'])
        using f(1) t 3 f(4) [of ?T] f(2) f(5) by simp
    qed
  next
    case None
    define me' where "me' = set_children (take (Suc (last p)) (children me) @
                 [set_children [org_ref doc nm href] (make_element doc ''references'')] @
                 drop (Suc (last p)) (children me)) me"
    note f = ensure_reference_created [OF m me rdy None me'_def]
    have t: "tag me' = tag me" by (simp add: me'_def)
    have ci: "child_index me' k =
        (case child_index me k of None \<Rightarrow> None | Some i \<Rightarrow> Some (if i < Suc l then i else Suc i))"
      if "k = ''lifecycle'' \<or> k = ''publication'' \<or> k = ''identification''" for k
      using that f(2) [of k] unfolding lp by auto
    have 3: "lifecycle_ready (put_meta doc m me') p"
      unfolding lifecycle_ready_meta [OF put_meta_meta [OF m me t]]
      using l s a f(3) [unfolded lp] by (auto simp add: ci p split: option.splits)
    have 4: "length (filter (\<lambda>c. tag c = ?T) (children me')) =
        length (filter (\<lambda>c. tag c = ?T) (children me))"
      by (rule f(4)) simp_all
    have 6: "(child_index me k = None \<longrightarrow> child_index me' k = None) \<and>
             (child_index me k = Some i \<longrightarrow> i \<le> last p \<longrightarrow> child_index me' k = Some i)"
      if "k = ''publication'' \<or> k = ''identification''" for k i
      using that by (auto simp add: ci lp)
    have 5: "org_count ?ns (children me) = 0 \<Longrightarrow> org_count ?ns (children me') = 1"
      unfolding f(5) by simp
    show ?thesis
      apply (rule exI [of _ "m @ [Suc (last p)] @ [0]"], rule exI [of _ me'])
      using f(1) t 3 4 5 6 by simp
  qed
qed

lemma block_count_attr_set [simp]: "block_count ns (attr_set k v e) = block_count ns e"
  by (simp add: block_count_def)

lemma sum_list_map_update_same:
  assumes "i < length xs" and "g y = g (xs ! i)"
  shows "sum_list (map g (xs[i := y])) = sum_list (map g xs :: nat list)"
  using sum_list_map_update [OF assms(1), of g y] assms(2) by simp

lemma set_source_ready:
  assumes m: "meta doc = Inr m" and me: "get_at (root doc) m = Some me"
    and l: "child_index me ''lifecycle'' = Some l"
    and a: "child_index me ''publication'' \<noteq> None \<or> child_index me ''identification'' \<noteq> None"
    and me': "me' = set_children ((children me)[l := attr_set ''source'' v (children me ! l)]) me"
    and v: "v \<noteq> []"
  shows "set_at (m @ [l]) ''source'' v doc = put_meta doc m me'"
    and "lifecycle_ready (put_meta doc m me') (m @ [l])"
    and "child_index me' k = child_index me k"
    and "length (filter (\<lambda>c. tag c = T) (children me')) =
           length (filter (\<lambda>c. tag c = T) (children me))"
    and "org_count ns (children me') = org_count ns (children me)"
proof -
  have ll: "l < length (children me)"
    using child_index_SomeD [OF l] by simp
  show "set_at (m @ [l]) ''source'' v doc = put_meta doc m me'"
    unfolding me' by (rule set_at_meta_child [OF me ll])
  show ci: "child_index me' k = child_index me k" for k
    unfolding me' child_index_set_children unfolding child_index_def
    by (rule first_index_update_same [OF ll]) simp
  have t: "tag me' = tag me" by (simp add: me')
  have s: "attr_get (children me' ! l) ''source'' = Some v"
    using ll by (simp add: me' attr_get_attr_set)
  show "lifecycle_ready (put_meta doc m me') (m @ [l])"
    unfolding lifecycle_ready_meta [OF put_meta_meta [OF m me t]] ci
    using l a s v by simp
  show "length (filter (\<lambda>c. tag c = T) (children me')) =
           length (filter (\<lambda>c. tag c = T) (children me))"
    unfolding me' children_set_children
    by (rule length_filter_update_same [OF ll]) simp
  show "org_count ns (children me') = org_count ns (children me)"
    unfolding org_count_def me' children_set_children
    by (rule sum_list_map_update_same [OF ll]) simp
qed

lemma lifecycle_created:
  assumes m: "meta doc = Inr m" and me: "get_at (root doc) m = Some me"
    and ns: "namespace_of (tag me) = Some (namespace doc)"
    and l: "child_index me ''lifecycle'' = None"
    and a: "lifecycle_after doc = Inr a"
    and me': "me' = set_children (take (Suc (last a)) (children me) @
                 [make_element doc ''lifecycle''] @ drop (Suc (last a)) (children me)) me"
  shows "ensure_element doc ''meta.lifecycle'' a None =
           Inr (Node (butlast a @ [Suc (last a)]), put_meta doc m me')"
    and "butlast a = m"
    and "child_index me' ''lifecycle'' = Some (Suc (last a))"
    and "attr_get (children me' ! Suc (last a)) ''source'' = None"
    and "(k = ''publication'' \<or> k = ''identification'') \<Longrightarrow>
           (child_index me k = None \<longrightarrow> child_index me' k = None) \<and>
           (child_index me k = Some i \<longrightarrow> i \<le> last a \<longrightarrow> child_index me' k = Some i) \<and>
           (child_index me k \<noteq> None \<longrightarrow> child_index me' k \<noteq> None)"
    and "length (filter (\<lambda>c. tag c = ''{'' @ namespace doc @ ''}lifecycle'') (children me)) = 0"
    and "length (filter (\<lambda>c. tag c = ''{'' @ namespace doc @ ''}lifecycle'') (children me')) = 1"
    and "org_count (namespace doc) (children me') = org_count (namespace doc) (children me)"
proof -
  let ?cs = "children me"
  let ?ns = "namespace doc"
  let ?new = "make_element doc ''lifecycle''"
  let ?L = "\<lambda>c. tag c = ''{'' @ ?ns @ ''}lifecycle''"
  obtain k0 where ak: "a = m @ [k0]" and kl: "k0 < length ?cs"
    using a unfolding lifecycle_after_meta [OF m me]
    by (auto split: option.splits dest: child_index_SomeD)
  have la: "last a = k0" and ba: "butlast a = m" by (simp_all add: ak)
  show "butlast a = m" by (rule ba)
  have sk: "Suc k0 \<le> length ?cs" using kl by simp
  have ct: "child_tag (tag me) ''lifecycle'' = ''{'' @ ?ns @ ''}lifecycle''"
    using child_tag_namespace [OF ns, of "''lifecycle''"] by simp
  have tn: "tag ?new = ''{'' @ ?ns @ ''}lifecycle''"
    by (simp add: make_element_plain)
  have c: "meta_chain doc [''lifecycle''] =
      Inl (AttributeError (''no such child: '' @ child_tag (tag me) ''lifecycle''))"
    by (simp add: meta_chain_child_index [OF m me] l)
  show "ensure_element doc ''meta.lifecycle'' a None =
           Inr (Node (butlast a @ [Suc (last a)]), put_meta doc m me')"
    unfolding ba la me' unfolding ak
    using c split_meta_lifecycle(1) me by (rule ensure_element_meta_created) simp
  have fi: "first_index (\<lambda>c. tag c = child_tag (tag me) ''lifecycle'') ?cs = None"
    using l by (simp add: child_index_def)
  show "child_index me' ''lifecycle'' = Some (Suc (last a))"
    unfolding me' la child_index_set_children
    by (rule first_index_insert_new [OF _ fi sk]) (simp add: tn ct)
  have "children me' ! Suc k0 = ?new"
    unfolding me' la children_set_children by (rule nth_insert_at [OF sk])
  then show "attr_get (children me' ! Suc (last a)) ''source'' = None"
    unfolding la by (simp add: make_element_plain attr_get_def)
  show "(child_index me k = None \<longrightarrow> child_index me' k = None) \<and>
           (child_index me k = Some i \<longrightarrow> i \<le> last a \<longrightarrow> child_index me' k = Some i) \<and>
           (child_index me k \<noteq> None \<longrightarrow> child_index me' k \<noteq> None)"
    if k: "k = ''publication'' \<or> k = ''identification''"
  proof -
    have "tag ?new \<noteq> child_tag (tag me) k"
      unfolding tn using tags_differ_by_last [of "''lifecycle''" k ?ns "tag me"] k by auto
    then have "child_index me' k =
        (case child_index me k of None \<Rightarrow> None
         | Some i \<Rightarrow> Some (if i < Suc k0 then i else Suc i))"
      unfolding me' la child_index_set_children unfolding child_index_def
      by (rule first_index_insert_other [OF _ sk])
    then show ?thesis
      by (auto simp: la split: option.splits)
  qed
  have f0: "filter ?L ?cs = []"
    using filter_empty_first_index [OF fi] unfolding ct .
  show "length (filter ?L ?cs) = 0"
    unfolding f0 by simp
  show "length (filter ?L (children me')) = 1"
    unfolding me' children_set_children length_filter_insert f0 by (simp add: tn)
  have "block_count ?ns ?new = 0"
    by (simp add: block_count_def make_element_plain)
  then show "org_count ?ns (children me') = org_count ?ns ?cs"
    unfolding org_count_def me' children_set_children sum_list_map_insert by simp
qed

section \<open>What the synchronisation of the URIs keeps\<close>

lemma uri_variant_refl: "uri_variant t t"
proof (induction t)
  case (Element t ns as cs)
  have "list_all2 uri_variant cs cs"
    by (rule list_all2_all_nthI) (simp_all add: Element.IH)
  then show ?case
    by (intro uri_variant_children) simp_all
qed

lemma uri_variant_tag: "uri_variant t t' \<Longrightarrow> tag t' = tag t"
  by (erule uri_variant.cases) simp_all

lemma uri_variant_attr: "uri_variant t t' \<Longrightarrow> k \<noteq> ''value'' \<Longrightarrow> attr_get t' k = attr_get t k"
  by (erule uri_variant.cases) simp_all

lemma uri_variant_childrenD:
  "uri_variant t t' \<Longrightarrow> \<not> suffix ''FRBRWork'' (tag t) \<Longrightarrow>
   list_all2 uri_variant (children t) (children t')"
  by (erule uri_variant.cases) simp_all

lemma uri_variant_trans: "uri_variant a b \<Longrightarrow> uri_variant b c \<Longrightarrow> uri_variant a c"
proof (induction a b arbitrary: c rule: uri_variant.induct)
  case (uri_variant_work t' t)
  show ?case
    using uri_variant_work uri_variant_tag [OF uri_variant_work.prems]
      uri_variant_attr [OF uri_variant_work.prems]
    by (intro uri_variant.uri_variant_work) simp_all
next
  case (uri_variant_children t' t)
  note bc = uri_variant_children.prems
  have tg: "tag c = tag t"
    using uri_variant_tag [OF bc] uri_variant_children.hyps(1) by simp
  have at: "\<forall>k. k \<noteq> ''value'' \<longrightarrow> attr_get c k = attr_get t k"
    using uri_variant_attr [OF bc] uri_variant_children.hyps(2) by simp
  show ?case
  proof (cases "suffix ''FRBRWork'' (tag t)")
    case True
    then show ?thesis using tg at by (intro uri_variant.uri_variant_work)
  next
    case False
    then have "\<not> suffix ''FRBRWork'' (tag t')"
      using uri_variant_children.hyps(1) by simp
    from uri_variant_childrenD [OF bc this]
    have l2: "list_all2 uri_variant (children t') (children c)" .
    have "list_all2 uri_variant (children t) (children c)"
      using uri_variant_children.IH l2
      by (auto simp: list_all2_conv_all_nth)
    then show ?thesis using tg at by (intro uri_variant.uri_variant_children)
  qed
qed

lemma uri_variant_upd_at:
  assumes "get_at t p = Some e" and "uri_variant e e'"
  shows "uri_variant t (upd_at p (\<lambda>_. e') t)"
  using assms
proof (induction p arbitrary: t)
  case Nil
  then show ?case by simp
next
  case (Cons i p)
  from Cons.prems(1) have il: "i < length (children t)" and g: "get_at (children t ! i) p = Some e"
    by (simp_all split: if_splits)
  have "list_all2 uri_variant (children t) ((children t)[i := upd_at p (\<lambda>_. e') (children t ! i)])"
    using il Cons.IH [OF g Cons.prems(2)]
    by (auto simp: list_all2_conv_all_nth nth_list_update uri_variant_refl)
  then show ?case
    using il by (intro uri_variant_children) (simp_all add: attr_get_def)
qed

lemma uri_variant_upd_at_fun:
  assumes "get_at t p = Some e" and "uri_variant e (f e)"
  shows "uri_variant t (upd_at p f t)"
  using uri_variant_upd_at [OF assms] upd_at_const [OF assms(1), of f] by simp

lemma uri_variant_attr_set: "uri_variant e (attr_set ''value'' v e)"
  by (rule uri_variant_children)
     (simp_all add: attr_set_def attr_get_def update_conv' list_all2_conv_all_nth uri_variant_refl)

lemma uri_variant_set_children:
  "suffix ''FRBRWork'' (tag e) \<Longrightarrow> uri_variant e (set_children cs e)"
  by (rule uri_variant_work) (simp_all add: set_children_def attr_get_def)

lemma upd_at_missing: "get_at t p = None \<Longrightarrow> upd_at p f t = t"
proof (induction p arbitrary: t)
  case Nil
  then show ?case by simp
next
  case (Cons i p)
  then show ?case
    by (cases t) (auto split: if_splits simp: list_update_same_conv)
qed

lemma uri_variant_set_at: "uri_variant (root d) (root (set_at q ''value'' v d))"
proof (cases "get_at (root d) q")
  case None
  then show ?thesis by (simp add: set_at_def upd_at_missing uri_variant_refl)
next
  case (Some e)
  then show ?thesis
    unfolding set_at_def using uri_variant_upd_at_fun [OF Some, of "attr_set ''value'' v"]
    by (simp add: uri_variant_attr_set)
qed

lemma bindE_InrE:
  assumes "bindE m f = Inr y"
  obtains x where "m = Inr x" and "f x = Inr y"
  using assms by (cases m) simp_all

lemma suffix_child_tag: "suffix n (child_tag t n)"
  by (auto simp: child_tag_def suffix_def split: list.splits char.splits bool.splits option.splits)

lemma objectify_getattr_InrD:
  assumes "objectify_getattr t p n = Inr q"
  shows "\<exists>e i. get_at t p = Some e \<and> q = p @ [i] \<and> i < length (children e) \<and>
           tag (children e ! i) = child_tag (tag e) n \<and> get_at t q = Some (children e ! i)"
  using assms
  by (auto simp: objectify_getattr_def get_at_append split: option.splits dest: first_index_SomeD)

lemma work_block:
  assumes "getattr_chain t [] [''FRBRWork''] = Inr at"
  shows "\<exists>w. get_at t at = Some w \<and> suffix ''FRBRWork'' (tag w) \<and> length at = 1"
proof -
  from assms have "objectify_getattr t [] ''FRBRWork'' = Inr at"
    by (simp add: bindE_eq_Inr)
  from objectify_getattr_InrD [OF this] show ?thesis
    using suffix_child_tag [of "''FRBRWork''"] by auto
qed

lemma work_child:
  assumes "getattr_chain t [] [''FRBRWork'', n] = Inr q"
  shows "\<exists>w. get_at t (butlast q) = Some w \<and> suffix ''FRBRWork'' (tag w)"
proof -
  from assms obtain at where a: "objectify_getattr t [] ''FRBRWork'' = Inr at"
    and b: "objectify_getattr t at n = Inr q"
    by (auto simp: bindE_eq_Inr)
  from objectify_getattr_InrD [OF b] obtain i where q: "q = at @ [i]" by blast
  from objectify_getattr_InrD [OF a] show ?thesis
    using suffix_child_tag [of "''FRBRWork''"] by (auto simp: q)
qed

lemma uri_variant_set_chain:
  assumes "set_chain d names ''value'' v = Inr d'"
  shows "uri_variant (root d) (root d')"
proof -
  from assms obtain q where "d' = set_at q ''value'' v d"
    unfolding set_chain_def by (elim bindE_InrE) auto
  then show ?thesis by (simp only: uri_variant_set_at)
qed

lemma uri_variant_ensure_element:
  assumes "ensure_element d name after at = Inr (node, d1)"
    and "get_at (root d) (butlast after) = Some w" and "suffix ''FRBRWork'' (tag w)"
  shows "uri_variant (root d) (root d1)"
proof -
  from assms(1) obtain r where r: "get_element d name at = Inr r"
    and c: "(case r of
         Some n \<Rightarrow> Inr (n, d)
       | None \<Rightarrow>
           bindE (addnext after (make_element d (last (split_on (CHR ''.'') name))) (root d))
             (\<lambda>(q, t). Inr (Node q, d\<lparr>root := t\<rparr>))) = Inr (node, d1)"
    unfolding ensure_element_def by (elim bindE_InrE)
  show ?thesis
  proof (cases r)
    case (Some n)
    then have "d1 = d" using c by simp
    then show ?thesis by (simp only: uri_variant_refl)
  next
    case None
    let ?f = "\<lambda>e. set_children (take (Suc (last after)) (children e) @
                 [make_element d (last (split_on (CHR ''.'') name))] @
                 drop (Suc (last after)) (children e)) e"
    from c None have "bindE (addnext after (make_element d (last (split_on (CHR ''.'') name))) (root d))
             (\<lambda>(q, t). Inr (Node q, d\<lparr>root := t\<rparr>)) = Inr (node, d1)"
      by (simp only: option.case)
    then obtain q t where
      x: "addnext after (make_element d (last (split_on (CHR ''.'') name))) (root d) = Inr (q, t)"
      and y: "d1 = d\<lparr>root := t\<rparr>"
      by (auto elim!: bindE_InrE)
    have "t = upd_at (butlast after) ?f (root d)"
      using x by (cases "after = []") (simp_all add: addnext_def)
    then have e: "root d1 = upd_at (butlast after) ?f (root d)"
      using y by simp
    have "uri_variant w (?f w)"
      by (rule uri_variant_set_children [OF assms(3)])
    from uri_variant_upd_at_fun [OF assms(2), of ?f, OF this] show ?thesis
      unfolding e .
  qed
qed

lemma uri_variant_ensure_and_set:
  assumes "ensure_and_set d name v = Inr d'"
  shows "uri_variant (root d) (root d')"
proof -
  from assms obtain at after x where
    b: "getattr_chain (root d) [] [''FRBRWork'', ''FRBRcountry''] = Inr after"
    and c: "ensure_element d name after (Some at) = Inr x"
    and e: "(case x of (node, d1) \<Rightarrow>
               bindE (node_path node) (\<lambda>p. Inr (set_at p ''value'' v d1))) = Inr d'"
    unfolding ensure_and_set_def by (elim bindE_InrE)
  obtain node d1 where x: "x = (node, d1)" by (cases x)
  from e x obtain p where d': "d' = set_at p ''value'' v d1"
    by (simp only: prod.case) (elim bindE_InrE, auto)
  from work_child [OF b] obtain w where
    w: "get_at (root d) (butlast after) = Some w" "suffix ''FRBRWork'' (tag w)"
    by blast
  have "uri_variant (root d) (root d1)"
    by (rule uri_variant_ensure_element [OF c [unfolded x] w])
  moreover have "uri_variant (root d1) (root d')"
    unfolding d' by (rule uri_variant_set_at)
  ultimately show ?thesis by (rule uri_variant_trans)
qed

lemma uri_variant_remove_subtype:
  assumes "remove_subtype d = Inr d'"
  shows "uri_variant (root d) (root d')"
proof (cases "getattr_chain (root d) [] [''FRBRWork'', ''FRBRsubtype'']")
  case (Inl e)
  then have "d' = d"
    using assms by (cases e) (simp_all add: remove_subtype_def)
  then show ?thesis by (simp only: uri_variant_refl)
next
  case (Inr q)
  from work_child [OF Inr] obtain w where
    w: "get_at (root d) (butlast q) = Some w" "suffix ''FRBRWork'' (tag w)"
    by blast
  let ?f = "\<lambda>e. set_children (take (last q) (children e) @ drop (Suc (last q)) (children e)) e"
  have e: "root d' = upd_at (butlast q) ?f (root d)"
    using assms Inr by (auto simp: remove_subtype_def remove_child_def)
  have "uri_variant w (?f w)"
    by (rule uri_variant_set_children [OF w(2)])
  from uri_variant_upd_at_fun [OF w(1), of ?f, OF this] show ?thesis
    unfolding e .
qed

lemma uri_variant_sync_ident:
  assumes "sync_ident api d uri = Inr d'"
  shows "uri_variant (root d) (root d')"
proof -
  from assms obtain d1 d2 d3 d4 d5 d6 d7 d8 where
    s1: "set_chain d [''FRBRWork'', ''FRBRuri''] ''value'' (FrbrUri_uri api uri) = Inr d1"
    and s2: "set_chain d1 [''FRBRWork'', ''FRBRthis''] ''value'' (FrbrUri_work_uri api uri True) = Inr d2"
    and s3: "set_chain d2 [''FRBRWork'', ''FRBRcountry''] ''value'' (FrbrUri_place api uri) = Inr d3"
    and s4: "ensure_and_set d3 ''FRBRnumber'' (number uri) = Inr d4"
    and s5: "(case subtype uri of
              None \<Rightarrow> remove_subtype d4
            | Some s \<Rightarrow> (if s = [] then remove_subtype d4
                         else ensure_and_set d4 ''FRBRsubtype'' s)) = Inr d5"
    and s6: "set_chain d5 [''FRBRExpression'', ''FRBRuri''] ''value''
              (FrbrUri_expression_uri api uri False) = Inr d6"
    and s7: "set_chain d6 [''FRBRExpression'', ''FRBRthis''] ''value''
              (FrbrUri_expression_uri api uri True) = Inr d7"
    and s8: "set_chain d7 [''FRBRManifestation'', ''FRBRuri''] ''value''
              (FrbrUri_expression_uri api uri False) = Inr d8"
    and s9: "set_chain d8 [''FRBRManifestation'', ''FRBRthis''] ''value''
              (FrbrUri_expression_uri api uri True) = Inr d'"
    unfolding sync_ident_def by (elim bindE_InrE)
  have 5: "uri_variant (root d4) (root d5)"
  proof (cases "subtype uri")
    case None
    then show ?thesis using s5 by (simp add: uri_variant_remove_subtype)
  next
    case (Some s)
    then show ?thesis
      using s5 by (cases "s = []") (simp_all add: uri_variant_remove_subtype uri_variant_ensure_and_set)
  qed
  note t = uri_variant_trans
  show ?thesis
    by (rule t [OF uri_variant_set_chain [OF s1]
          t [OF uri_variant_set_chain [OF s2]
          t [OF uri_variant_set_chain [OF s3]
          t [OF uri_variant_ensure_and_set [OF s4]
          t [OF 5
          t [OF uri_variant_set_chain [OF s6]
          t [OF uri_variant_set_chain [OF s7]
          t [OF uri_variant_set_chain [OF s8] uri_variant_set_chain [OF s9]]]]]]]]])
qed

lemma elem_at_InrD: "elem_at doc p = Inr e \<Longrightarrow> get_at (root doc) p = Some e"
  by (simp add: elem_at_def split: option.splits)

lemma first_index_list_all2:
  assumes "list_all2 R xs ys" and "\<And>x y. R x y \<Longrightarrow> P x = Q y"
  shows "first_index P xs = first_index Q ys"
  using assms(1)
proof (induction rule: list_all2_induct)
  case Nil
  then show ?case by simp
next
  case (Cons x xs y ys)
  then show ?case using assms(2) [of x y] by simp
qed

lemma not_work_by_last:
  "n \<noteq> [] \<Longrightarrow> last n \<noteq> CHR ''k'' \<Longrightarrow> \<not> suffix ''FRBRWork'' (child_tag t n)"
proof
  assume n: "n \<noteq> []" "last n \<noteq> CHR ''k''" and s: "suffix ''FRBRWork'' (child_tag t n)"
  from s obtain x where "child_tag t n = x @ ''FRBRWork''"
    by (auto simp: suffix_def)
  then have "last (child_tag t n) = CHR ''k''" by simp
  then show False using n by (simp add: last_child_tag)
qed

lemma variant_objectify_getattr:
  assumes e: "get_at t p = Some e" and e': "get_at t' p = Some e'"
    and v: "uri_variant e e'" and nw: "\<not> suffix ''FRBRWork'' (tag e)"
  shows "objectify_getattr t' p n = objectify_getattr t p n"
    and "objectify_getattr t p n = Inr q \<Longrightarrow>
           \<exists>x x'. get_at t q = Some x \<and> get_at t' q = Some x' \<and> uri_variant x x' \<and>
                  tag x = child_tag (tag e) n"
proof -
  note l2 = uri_variant_childrenD [OF v nw]
  have tg: "tag e' = tag e" by (rule uri_variant_tag [OF v])
  have fi: "first_index (\<lambda>c. tag c = child_tag (tag e) n) (children e) =
      first_index (\<lambda>c. tag c = child_tag (tag e') n) (children e')"
    by (rule first_index_list_all2 [OF l2]) (simp add: tg uri_variant_tag)
  show "objectify_getattr t' p n = objectify_getattr t p n"
    by (simp add: objectify_getattr_def e e' fi tg cong: option.case_cong)
  assume "objectify_getattr t p n = Inr q"
  from objectify_getattr_InrD [OF this] e obtain i where
    q: "q = p @ [i]" and i: "i < length (children e)"
    and ti: "tag (children e ! i) = child_tag (tag e) n"
    and g: "get_at t q = Some (children e ! i)"
    by auto
  have i': "i < length (children e')"
    using i list_all2_lengthD [OF l2] by simp
  have "get_at t' q = Some (children e' ! i)"
    using e' i' by (simp add: q get_at_append)
  moreover have "uri_variant (children e ! i) (children e' ! i)"
    by (rule list_all2_nthD [OF l2 i])
  ultimately show "\<exists>x x'. get_at t q = Some x \<and> get_at t' q = Some x' \<and> uri_variant x x' \<and>
                  tag x = child_tag (tag e) n"
    using g ti by blast
qed

lemma variant_getattr_chain:
  assumes "get_at t p = Some e" and "get_at t' p = Some e'"
    and "uri_variant e e'" and "\<not> suffix ''FRBRWork'' (tag e)"
    and "\<forall>n \<in> set names. n \<noteq> [] \<and> last n \<noteq> CHR ''k''"
  shows "getattr_chain t' p names = getattr_chain t p names \<and>
         (\<forall>q. getattr_chain t p names = Inr q \<longrightarrow>
            (\<exists>x x'. get_at t q = Some x \<and> get_at t' q = Some x' \<and> uri_variant x x'))"
  using assms
proof (induction names arbitrary: p e e')
  case Nil
  then show ?case by simp
next
  case (Cons n names)
  note o = variant_objectify_getattr [OF Cons.prems(1-4)]
  show ?case
  proof (cases "objectify_getattr t p n")
    case (Inl x)
    then show ?thesis by (simp add: o(1))
  next
    case (Inr q1)
    from o(2) [OF Inr] obtain x x' where
      x: "get_at t q1 = Some x" "get_at t' q1 = Some x'" "uri_variant x x'"
         "tag x = child_tag (tag e) n"
      by blast
    have "\<not> suffix ''FRBRWork'' (tag x)"
      unfolding x(4) using Cons.prems(5) by (intro not_work_by_last) simp_all
    from Cons.IH [OF x(1,2,3) this] Cons.prems(5) show ?thesis
      by (simp add: o(1) Inr)
  qed
qed

lemma bindE_all_Inl:
  assumes "\<And>x. \<exists>e. f x = Inl e"
  shows "\<exists>e. bindE m f = Inl e"
  using assms by (cases m) simp_all

lemma expression_date_setter_resync:
  assumes "meta_chain doc [''identification'', ''FRBRExpression'', ''FRBRdate''] = Inr q"
  shows "expression_date_setter api doc v = resync api (set_at q ''date'' (datestring v) doc)"
  by (simp add: expression_date_setter_def assms)

lemma expression_date_setter_raises:
  assumes "parse_date api (Some (datestring v)) = Inl e"
  shows "\<exists>e'. expression_date_setter api doc v = Inl e'"
proof (cases "meta_chain doc [''identification'', ''FRBRExpression'', ''FRBRdate'']")
  case (Inl x)
  then show ?thesis by (simp add: expression_date_setter_def)
next
  case (Inr q)
  let ?d1 = "set_at q ''date'' (datestring v) doc"
  note st = date_setter_stores [OF Inr, where k = "''date''" and v = "datestring v"]
  have eg: "expression_date_getter api ?d1 = Inl e"
    unfolding expression_date_getter_def using st assms by simp
  have fs: "\<exists>e'. frbr_uri_setter api ?d1 arg = Inl e'" for arg
    unfolding frbr_uri_setter_def
    by (rule bindE_all_Inl, rule bindE_all_Inl) (simp add: eg)
  have "\<exists>e'. bindE (frbr_uri_setter api ?d1 arg) f = Inl e'" for arg
    and f :: "document \<times> frbr_uri \<Rightarrow> error + document"
    using fs [of arg] by auto
  then have "\<exists>e'. resync api ?d1 = Inl e'"
    unfolding resync_def by (rule bindE_all_Inl)
  then show ?thesis
    unfolding expression_date_setter_resync [OF Inr] .
qed

lemma list_all2_refl_all: "(\<And>x. P x x) \<Longrightarrow> list_all2 P xs xs"
  by (simp add: list_all2_conv_all_nth)

lemma child_variant_refl: "child_variant c c"
  unfolding child_variant_def
  using list_all2_refl_all [of uri_variant, OF uri_variant_refl] by simp

lemma child_variant_trans:
  assumes "child_variant a b" and "child_variant b c"
  shows "child_variant a c"
proof -
  have 1: "list_all2 uri_variant (children a) (children b)"
    and 2: "list_all2 uri_variant (children b) (children c)"
    using assms by (simp_all add: child_variant_def)
  have "list_all2 uri_variant (children a) (children c)"
    by (rule list_all2_trans [OF _ 1 2]) (rule uri_variant_trans)
  then show ?thesis
    using assms by (simp add: child_variant_def)
qed

lemma tree_variant_refl: "tree_variant t t"
  unfolding tree_variant_def
  using list_all2_refl_all [of child_variant, OF child_variant_refl] by simp

lemma tree_variant_trans:
  assumes "tree_variant a b" and "tree_variant b c"
  shows "tree_variant a c"
proof -
  have 1: "list_all2 child_variant (children a) (children b)"
    and 2: "list_all2 child_variant (children b) (children c)"
    using assms by (simp_all add: tree_variant_def)
  have "list_all2 child_variant (children a) (children c)"
    by (rule list_all2_trans [OF _ 1 2]) (rule child_variant_trans)
  then show ?thesis
    using assms by (simp add: tree_variant_def)
qed

lemma list_all2_update_one:
  assumes "\<And>x. P x x" and "i < length xs" and "P (xs ! i) y"
  shows "list_all2 P xs (xs[i := y])"
  using assms by (simp add: list_all2_conv_all_nth nth_list_update)

lemma child_variant_upd_at:
  assumes "get_at c (j # p) = Some e" and "uri_variant e e'"
  shows "child_variant c (upd_at (j # p) (\<lambda>_. e') c)"
proof -
  from assms(1) have jl: "j < length (children c)"
    and g: "get_at (children c ! j) p = Some e"
    by (simp_all split: if_splits)
  have v: "uri_variant (children c ! j) (upd_at p (\<lambda>_. e') (children c ! j))"
    by (rule uri_variant_upd_at [OF g assms(2)])
  have "list_all2 uri_variant (children c) ((children c)[j := upd_at p (\<lambda>_. e') (children c ! j)])"
    by (rule list_all2_update_one [OF uri_variant_refl jl v])
  then show ?thesis
    using jl by (simp add: child_variant_def attr_get_def)
qed

lemma tree_variant_upd_at:
  assumes "get_at t (i # j # p) = Some e" and "uri_variant e e'"
  shows "tree_variant t (upd_at (i # j # p) (\<lambda>_. e') t)"
proof -
  from assms(1) have il: "i < length (children t)"
    and g: "get_at (children t ! i) (j # p) = Some e"
    by (simp_all split: if_splits)
  have v: "child_variant (children t ! i) (upd_at (j # p) (\<lambda>_. e') (children t ! i))"
    by (rule child_variant_upd_at [OF g assms(2)])
  have "list_all2 child_variant (children t)
          ((children t)[i := upd_at (j # p) (\<lambda>_. e') (children t ! i)])"
    by (rule list_all2_update_one [OF child_variant_refl il v])
  then show ?thesis
    using il by (simp add: tree_variant_def attr_get_def del: upd_at.simps)
       (simp add: upd_at.simps(2) [of i "j # p"] del: upd_at.simps)
qed

lemma descendants_nonempty:
  "p \<in> set (descendants e) \<Longrightarrow> p \<noteq> []"
  "p \<in> set (descendants_from i cs) \<Longrightarrow> p \<noteq> []"
  by (induction e and i cs arbitrary: p and p rule: descendants_descendants_from.induct) auto

lemma first_of_list: "(case xs of [] \<Rightarrow> None | q # _ \<Rightarrow> Some q) = Some r \<Longrightarrow> r \<in> set xs"
  by (cases xs) auto

lemma find_ident_long:
  assumes "find_ident ns e = Some r"
  shows "\<exists>a b p. r = a # b # p"
proof -
  from assms have "r \<in> set [m @ [j].
              m \<leftarrow> descendants e,
              me \<leftarrow> (case get_at e m of None \<Rightarrow> [] | Some x \<Rightarrow> [x]),
              tag me = ''{'' @ ns @ ''}meta'',
              (j, c) \<leftarrow> indexed_children me,
              tag c = ''{'' @ ns @ ''}identification'']"
    unfolding find_ident_def by (rule first_of_list)
  then obtain m j where r: "r = m @ [j]" and "m \<in> set (descendants e)"
    by (auto split: if_splits)
  then obtain a l where m: "m = a # l"
    using descendants_nonempty(1) [of m e] by (cases m) auto
  obtain b p where "l @ [j] = b # p"
    by (cases "l @ [j]") simp_all
  then show ?thesis
    by (simp add: r m)
qed

lemma append_long:
  assumes "cp \<noteq> []" and "r = a # b # p"
  shows "\<exists>x y q. cp @ r = x # y # q"
proof (cases cp)
  case Nil
  then show ?thesis using assms by simp
next
  case (Cons c cs)
  then show ?thesis using assms(2) by (cases cs) simp_all
qed

lemma sync_component_tree_variant:
  assumes "sync_component api doc uri cp = Inr doc'" and "cp \<noteq> []"
  shows "tree_variant (root doc) (root doc') \<and> doc' = doc\<lparr>root := root doc'\<rparr>"
proof -
  from assms(1) obtain e where e: "elem_at doc cp = Inr e"
    and c: "(case find_ident (namespace doc) e of
         None \<Rightarrow> Inl (AttributeError ''FRBRWork'')
       | Some r \<Rightarrow>
           bindE (elem_at doc (cp @ r)) (\<lambda>ident.
           bindE (sync_ident api (doc\<lparr>root := ident\<rparr>) uri) (\<lambda>d.
             Inr (doc\<lparr>root := upd_at (cp @ r) (\<lambda>_. root d) (root doc)\<rparr>)))) = Inr doc'"
    unfolding sync_component_def by (rule bindE_InrE)
  from c obtain r where r: "find_ident (namespace doc) e = Some r"
    by (cases "find_ident (namespace doc) e") simp_all
  from c r have "bindE (elem_at doc (cp @ r)) (\<lambda>ident.
           bindE (sync_ident api (doc\<lparr>root := ident\<rparr>) uri) (\<lambda>d.
             Inr (doc\<lparr>root := upd_at (cp @ r) (\<lambda>_. root d) (root doc)\<rparr>))) = Inr doc'"
    by (simp only: option.case)
  then obtain ident d where i: "elem_at doc (cp @ r) = Inr ident"
    and s: "sync_ident api (doc\<lparr>root := ident\<rparr>) uri = Inr d"
    and d': "doc' = doc\<lparr>root := upd_at (cp @ r) (\<lambda>_. root d) (root doc)\<rparr>"
    by (auto elim!: bindE_InrE)
  have v: "uri_variant ident (root d)"
    using uri_variant_sync_ident [OF s] by simp
  from find_ident_long [OF r] obtain a0 b0 p0 where "r = a0 # b0 # p0"
    by blast
  from append_long [OF assms(2) this] obtain a b p where p: "cp @ r = a # b # p"
    by blast
  from tree_variant_upd_at [OF elem_at_InrD [OF i, unfolded p] v] show ?thesis
    unfolding d' p by simp
qed

lemma sync_loop_tree_variant:
  assumes "sync_loop api comps doc uri = Inr (doc', uri')"
    and "\<forall>x \<in> set comps. snd x \<noteq> []"
  shows "tree_variant (root doc) (root doc') \<and> doc' = doc\<lparr>root := root doc'\<rparr>"
  using assms
proof (induction comps arbitrary: doc uri)
  case Nil
  then show ?case by (simp add: tree_variant_refl)
next
  case (Cons c comps)
  obtain component cp where c: "c = (component, cp)" by (cases c)
  from Cons.prems(1) obtain doc1 where
    1: "sync_component api doc (uri\<lparr>work_component := component\<rparr>) cp = Inr doc1"
    and 2: "sync_loop api comps doc1 (uri\<lparr>work_component := component\<rparr>) = Inr (doc', uri')"
    unfolding c by (auto simp: Let_def elim!: bindE_InrE)
  have ne: "cp \<noteq> []" and rest: "\<forall>x \<in> set comps. snd x \<noteq> []"
    using Cons.prems(2) by (simp_all add: c)
  note a = sync_component_tree_variant [OF 1 ne]
  note b = Cons.IH [OF 2 rest]
  have "tree_variant (root doc) (root doc')"
    by (rule tree_variant_trans [OF a [THEN conjunct1] b [THEN conjunct1]])
  moreover have "doc' = doc\<lparr>root := root doc'\<rparr>"
    using a [THEN conjunct2] b [THEN conjunct2]
    by (metis document.surjective document.update_convs(1))
  ultimately show ?case by simp
qed

lemma update_keeps:
  assumes "\<forall>x \<in> set al. P (snd x)" and "P v"
  shows "\<forall>x \<in> set (AList.update k v al). P (snd x)"
  using assms by (induction al) auto

lemma components_loop_nonempty:
  assumes "components_loop api doc ms comps = Inr r"
    and "\<forall>x \<in> set comps. snd x \<noteq> []" and "\<forall>m \<in> set ms. butlast m \<noteq> []"
  shows "\<forall>x \<in> set r. snd x \<noteq> []"
  using assms
proof (induction ms arbitrary: comps)
  case Nil
  then show ?case by simp
next
  case (Cons m ms)
  from Cons.prems(1) have "bindE (getattr_chain (root doc) m [''identification'', ''FRBRWork'', ''FRBRthis'']) (\<lambda>q.
     bindE (FrbrUri_parse api (attr_at (root doc) q ''value'')) (\<lambda>frbr_uri.
       components_loop api doc ms (AList.update (work_component frbr_uri) (butlast m) comps))) = Inr r"
    by (simp only: components_loop.simps)
  then obtain q where "bindE (FrbrUri_parse api (attr_at (root doc) q ''value'')) (\<lambda>frbr_uri.
       components_loop api doc ms (AList.update (work_component frbr_uri) (butlast m) comps)) = Inr r"
    by (rule bindE_InrE)
  then obtain u :: frbr_uri where
    "components_loop api doc ms (AList.update (work_component u) (butlast m) comps) = Inr r"
    by (rule bindE_InrE)
  moreover have "\<forall>x \<in> set (AList.update (work_component u) (butlast m) comps). snd x \<noteq> []"
    by (rule update_keeps) (use Cons.prems in simp_all)
  ultimately show ?case
    using Cons.IH Cons.prems(3) by simp
qed

lemma xpath_metas_long: "r \<in> set (xpath_metas ns me) \<Longrightarrow> \<exists>a b c m. r = [a, b, c, m]"
  unfolding xpath_metas_def by auto

lemma components_nonempty:
  assumes "components api doc = Inr comps"
  shows "\<forall>x \<in> set comps. snd x \<noteq> []"
proof -
  from assms obtain u :: frbr_uri and mp me where mp: "main doc = Inr mp"
    and l: "components_loop api doc (map (\<lambda>r. mp @ r) (xpath_metas (namespace doc) me))
         [(work_component u, mp)] = Inr comps"
    unfolding components_def by (auto elim!: bindE_InrE)
  from mp obtain i where i: "mp = [i]"
    using objectify_getattr_InrD [of "root doc" "[]" "document_type doc" mp]
    by (auto simp: main_def)
  have "\<forall>m \<in> set (map (\<lambda>r. mp @ r) (xpath_metas (namespace doc) me)). butlast m \<noteq> []"
    using xpath_metas_long [of _ "namespace doc" me] by (auto simp: i)
  then show ?thesis
    by (intro components_loop_nonempty [OF l]) (simp_all add: i)
qed

lemma frbr_uri_setter_tree_variant:
  assumes "frbr_uri_setter api doc arg = Inr (doc', uri')"
  shows "tree_variant (root doc) (root doc') \<and> doc' = doc\<lparr>root := root doc'\<rparr>"
proof -
  from assms obtain comps uri where c: "components api doc = Inr comps"
    and s: "sync_loop api comps doc uri = Inr (doc', uri')"
    unfolding frbr_uri_setter_def Let_def by (elim bindE_InrE)
  show ?thesis
    by (rule sync_loop_tree_variant [OF s components_nonempty [OF c]])
qed

lemma resync_tree_variant:
  assumes "resync api doc = Inr doc'"
  shows "tree_variant (root doc) (root doc') \<and> doc' = doc\<lparr>root := root doc'\<rparr>"
proof -
  from assms obtain arg x where "frbr_uri_setter api doc arg = Inr x" and "fst x = doc'"
    unfolding resync_def by (auto elim!: bindE_InrE)
  then have "frbr_uri_setter api doc arg = Inr (doc', snd x)"
    by (cases x) simp
  then show ?thesis by (rule frbr_uri_setter_tree_variant)
qed

lemma related_objectify_getattr:
  assumes e: "get_at t p = Some e" and e': "get_at t' p = Some e'"
    and tg: "tag e' = tag e" and l2: "list_all2 R (children e) (children e')"
    and rt: "\<forall>x y. R x y \<longrightarrow> tag y = tag x"
  shows "objectify_getattr t' p n = objectify_getattr t p n"
    and "objectify_getattr t p n = Inr q \<Longrightarrow>
           \<exists>x x'. get_at t q = Some x \<and> get_at t' q = Some x' \<and> R x x' \<and>
                  tag x = child_tag (tag e) n"
proof -
  have fi: "first_index (\<lambda>c. tag c = child_tag (tag e) n) (children e) =
      first_index (\<lambda>c. tag c = child_tag (tag e') n) (children e')"
    by (rule first_index_list_all2 [OF l2]) (simp add: tg rt)
  show "objectify_getattr t' p n = objectify_getattr t p n"
    by (simp add: objectify_getattr_def e e' fi tg cong: option.case_cong)
  assume "objectify_getattr t p n = Inr q"
  from objectify_getattr_InrD [OF this] e obtain i where
    q: "q = p @ [i]" and i: "i < length (children e)"
    and ti: "tag (children e ! i) = child_tag (tag e) n"
    and g: "get_at t q = Some (children e ! i)"
    by auto
  have i': "i < length (children e')"
    using i list_all2_lengthD [OF l2] by simp
  have "get_at t' q = Some (children e' ! i)"
    using e' i' by (simp add: q get_at_append)
  moreover have "R (children e ! i) (children e' ! i)"
    by (rule list_all2_nthD [OF l2 i])
  ultimately show "\<exists>x x'. get_at t q = Some x \<and> get_at t' q = Some x' \<and> R x x' \<and>
                  tag x = child_tag (tag e) n"
    using g ti by blast
qed

lemma meta_chain_tree_variant:
  assumes v: "tree_variant (root doc) (root doc')" and f: "doc' = doc\<lparr>root := root doc'\<rparr>"
    and names: "\<forall>n \<in> set names. n \<noteq> [] \<and> last n \<noteq> CHR ''k''"
    and q: "meta_chain doc names = Inr q"
  shows "meta_chain doc' names = Inr q"
    and "k \<noteq> ''value'' \<Longrightarrow> attr_at (root doc') q k = attr_at (root doc) q k"
proof -
  have c: "meta_chain d names =
      bindE (main d) (\<lambda>mp. bindE (objectify_getattr (root d) mp ''meta'')
         (\<lambda>m. getattr_chain (root d) m names))" for d
    by (cases "main d") (simp_all add: meta_chain_def meta_def)
  from q obtain mp m where mp: "main doc = Inr mp"
    and m: "objectify_getattr (root doc) mp ''meta'' = Inr m"
    and g: "getattr_chain (root doc) m names = Inr q"
    unfolding c by (elim bindE_InrE)
  have dt: "document_type doc' = document_type doc"
    by (subst f) simp
  have g0: "get_at (root doc) [] = Some (root doc)" "get_at (root doc') [] = Some (root doc')"
    by simp_all
  have tg: "tag (root doc') = tag (root doc)"
    and l2: "list_all2 child_variant (children (root doc)) (children (root doc'))"
    using v by (simp_all add: tree_variant_def)
  have ct: "\<forall>x y. child_variant x y \<longrightarrow> tag y = tag x"
    by (simp add: child_variant_def)
  note o = related_objectify_getattr [where R = child_variant and n = "document_type doc",
      OF g0(1) g0(2) tg l2 ct]
  have mp': "main doc' = Inr mp"
    using mp by (simp add: main_def dt o(1))
  from o(2) [of mp] mp obtain me me' where
    me: "get_at (root doc) mp = Some me" "get_at (root doc') mp = Some me'" "child_variant me me'"
    by (auto simp: main_def)
  have tg1: "tag me' = tag me"
    and l21: "list_all2 uri_variant (children me) (children me')"
    using me(3) by (simp_all add: child_variant_def)
  have ut: "\<forall>x y. uri_variant x y \<longrightarrow> tag y = tag x"
    by (simp add: uri_variant_tag)
  note o1 = related_objectify_getattr [where R = uri_variant and n = "''meta''",
      OF me(1) me(2) tg1 l21 ut]
  have m': "objectify_getattr (root doc') mp ''meta'' = Inr m"
    using m by (simp add: o1(1))
  from o1(2) [OF m] obtain x x' where
    x: "get_at (root doc) m = Some x" "get_at (root doc') m = Some x'" "uri_variant x x'"
       "tag x = child_tag (tag me) ''meta''"
    by blast
  have nw: "\<not> suffix ''FRBRWork'' (tag x)"
    unfolding x(4) by (rule not_work_by_last) simp_all
  note gc = variant_getattr_chain [OF x(1,2,3) nw names]
  show "meta_chain doc' names = Inr q"
    unfolding c mp' using m' gc g by simp
  from gc g obtain y y' where
    y: "get_at (root doc) q = Some y" "get_at (root doc') q = Some y'" "uri_variant y y'"
    by blast
  assume "k \<noteq> ''value''"
  then show "attr_at (root doc') q k = attr_at (root doc) q k"
    using uri_variant_attr [OF y(3)] by (simp add: attr_at_def y)
qed

lemma expression_date_setter_keeps_date_always:
  assumes q: "meta_chain doc [''identification'', ''FRBRExpression'', ''FRBRdate''] = Inr q"
    and s: "expression_date_setter api doc v = Inr doc'"
  shows "meta_chain doc' [''identification'', ''FRBRExpression'', ''FRBRdate''] = Inr q \<and>
         attr_at (root doc') q ''date'' = Some (datestring v)"
proof -
  let ?d1 = "set_at q ''date'' (datestring v) doc"
  have rs: "resync api ?d1 = Inr doc'"
    using s unfolding expression_date_setter_resync [OF q] .
  note v = resync_tree_variant [OF rs]
  note st = date_setter_stores [OF q, where k = "''date''" and v = "datestring v"]
  have names: "\<forall>n \<in> set [''identification'', ''FRBRExpression'', ''FRBRdate'']. n \<noteq> [] \<and> last n \<noteq> CHR ''k''"
    by simp
  note c = meta_chain_tree_variant [OF v [THEN conjunct1] v [THEN conjunct2] names
      st [THEN conjunct1]]
  have "attr_at (root doc') q ''date'' = attr_at (root ?d1) q ''date''"
    by (rule c(2)) simp
  then show ?thesis
    using c(1) st by simp
qed

section \<open>The date setters\<close>




end
